theory Spec2Isabelle
  imports Main "HOL-Library.Word"
begin

unbundle bit_operations_syntax

section \<open>The ACSI bus engine of Acsi.cpp\<close>

text \<open>
  The engine talks to memory-mapped peripherals only. The model keeps the registers the
  code writes (the two GPIO configuration registers, the port B output register), the
  systick enable bit, the byte-addressed memory the buffers live in, and, for every
  register the code reads, the list of values the hardware will deliver on the following
  reads. A read takes the head of its list; when the list is empty the observed hardware
  trace has ended and the operation has not returned: its result is \<open>None\<close>. So a
  busy-wait loop that the hardware never releases does not return in the model either.
  Every register access and every systick switch is recorded in \<open>trace\<close>, newest first.

  Buffers are addresses (\<open>nat\<close>) into \<open>mem\<close>; the \<open>int\<close> counts and indices are 32-bit
  words, compared signed, and a signed overflow is a result of its own. The diagnostic
  output (\<open>acsiVerbose\<close>) is left out. Lemmas stand between the definitions only where
  a termination proof needs them.
\<close>

subsection \<open>Pin masks\<close>

definition A1_MASK :: "32 word" where "A1_MASK = 0x0040"
definition CS_MASK :: "32 word" where "CS_MASK = 0x0080"
definition IRQ_MASK :: "32 word" where "IRQ_MASK = 0x0100"
definition DRQ_MASK :: "32 word" where "DRQ_MASK = 0x0800"
definition ACK_MASK :: "32 word" where "ACK_MASK = 0x1000"

subsection \<open>Hardware state\<close>

datatype event =
    SystickDisable
  | SystickEnable
  | WrGpioaCrh "32 word"
  | WrGpiobCrh "32 word"
  | WrGpiobOdr "32 word"
  | WrCnt "16 word"
  | RdGpioaIdr "32 word"
  | RdGpiobIdr "32 word"
  | RdCnt "16 word"
  | RdCcr1 "16 word"

record hw =
  gpioa_crh :: "32 word"
  gpiob_crh :: "32 word"
  gpiob_odr :: "32 word"
  systick :: bool
  mem :: "nat \<Rightarrow> 8 word"
  gpioa_idr :: "32 word list"
  gpiob_idr :: "32 word list"
  tim_cnt :: "16 word list"
  tim_ccr1 :: "16 word list"
  trace :: "event list"

definition emit :: "event \<Rightarrow> hw \<Rightarrow> hw" where
  "emit e s = s\<lparr>trace := e # trace s\<rparr>"

text \<open>
  \<open>systick_disable\<close> and \<open>systick_enable\<close> belong to the board support library: they
  clear and set the enable bit of the systick timer, without any nesting count.
\<close>

definition systick_disable :: "hw \<Rightarrow> hw" where
  "systick_disable s = emit SystickDisable (s\<lparr>systick := False\<rparr>)"

definition systick_enable :: "hw \<Rightarrow> hw" where
  "systick_enable s = emit SystickEnable (s\<lparr>systick := True\<rparr>)"

subsection \<open>Register reads\<close>

definition rd_gpioa :: "hw \<Rightarrow> 32 word option \<times> hw" where
  "rd_gpioa s = (case gpioa_idr s of
       [] \<Rightarrow> (None, s)
     | v # vs \<Rightarrow> (Some v, emit (RdGpioaIdr v) (s\<lparr>gpioa_idr := vs\<rparr>)))"

definition rd_gpiob :: "hw \<Rightarrow> 32 word option \<times> hw" where
  "rd_gpiob s = (case gpiob_idr s of
       [] \<Rightarrow> (None, s)
     | v # vs \<Rightarrow> (Some v, emit (RdGpiobIdr v) (s\<lparr>gpiob_idr := vs\<rparr>)))"

definition rd_cnt :: "hw \<Rightarrow> 16 word option \<times> hw" where
  "rd_cnt s = (case tim_cnt s of
       [] \<Rightarrow> (None, s)
     | v # vs \<Rightarrow> (Some v, emit (RdCnt v) (s\<lparr>tim_cnt := vs\<rparr>)))"

definition rd_ccr1 :: "hw \<Rightarrow> 16 word option \<times> hw" where
  "rd_ccr1 s = (case tim_ccr1 s of
       [] \<Rightarrow> (None, s)
     | v # vs \<Rightarrow> (Some v, emit (RdCcr1 v) (s\<lparr>tim_ccr1 := vs\<rparr>)))"

definition wr_cnt :: "16 word \<Rightarrow> hw \<Rightarrow> hw" where
  "wr_cnt v s = emit (WrCnt v) s"

subsection \<open>Bus line access\<close>

text \<open>
  \<open>Acsi::idle\<close> returns
  \<^verbatim>\<open>(IDR & (IRQ_MASK | DRQ_MASK | ACK_MASK)) == IRQ_MASK | DRQ_MASK | ACK_MASK\<close>.
  In C++ \<open>==\<close> binds tighter than \<open>|\<close>: the comparison is made against \<open>IRQ_MASK\<close>
  alone, its truth value (0 or 1) is or-ed with the two other masks, and the result is
  converted to \<open>bool\<close>.
\<close>

definition idle_of :: "32 word \<Rightarrow> bool" where
  "idle_of idr =
     ((of_bool (idr AND (IRQ_MASK OR DRQ_MASK OR ACK_MASK) = IRQ_MASK) OR DRQ_MASK OR ACK_MASK)
        \<noteq> (0 :: 32 word))"

definition idle :: "hw \<Rightarrow> bool option \<times> hw" where
  "idle s = (case rd_gpioa s of
       (None, s') \<Rightarrow> (None, s')
     | (Some idr, s') \<Rightarrow> (Some (idle_of idr), s'))"

text \<open>
  The bus-idle query as the specification words it: true iff the interrupt, request and
  acknowledge lines are all high.
\<close>

definition isIdle_spec :: "32 word \<Rightarrow> bool" where
  "isIdle_spec idr =
     (idr AND (IRQ_MASK OR DRQ_MASK OR ACK_MASK) = (IRQ_MASK OR DRQ_MASK OR ACK_MASK))"

definition releaseRq :: "hw \<Rightarrow> hw" where
  "releaseRq s = emit (WrGpioaCrh 0x44444BB4) (s\<lparr>gpioa_crh := 0x44444BB4\<rparr>)"

definition releaseDataBus :: "hw \<Rightarrow> hw" where
  "releaseDataBus s = emit (WrGpiobCrh 0x44444444) (s\<lparr>gpiob_crh := 0x44444444\<rparr>)"

definition releaseBus :: "hw \<Rightarrow> hw" where
  "releaseBus s = releaseRq (releaseDataBus s)"

definition acquireDrq :: "hw \<Rightarrow> hw" where
  "acquireDrq s =
     (let s1 = wr_cnt 2 s;
          s2 = emit (WrGpioaCrh 0x44448BB4) (s1\<lparr>gpioa_crh := 0x44448BB4\<rparr>)
      in emit (WrGpioaCrh 0x4444BBB4) (s2\<lparr>gpioa_crh := 0x4444BBB4\<rparr>))"

definition acquireDataBus :: "hw \<Rightarrow> hw" where
  "acquireDataBus s = emit (WrGpiobCrh 0x33333333) (s\<lparr>gpiob_crh := 0x33333333\<rparr>)"

definition pullIrq :: "hw \<Rightarrow> hw" where
  "pullIrq s = emit (WrGpioaCrh 0x44444BB3) (s\<lparr>gpioa_crh := 0x44444BB3\<rparr>)"

definition writeData :: "8 word \<Rightarrow> hw \<Rightarrow> hw" where
  "writeData byte s =
     (let v = push_bit 8 (ucast byte :: 32 word)
      in emit (WrGpiobOdr v) (s\<lparr>gpiob_odr := v\<rparr>))"

definition readCs :: "hw \<Rightarrow> bool option \<times> hw" where
  "readCs s = (case rd_gpiob s of
       (None, s') \<Rightarrow> (None, s')
     | (Some v, s') \<Rightarrow> (Some (v AND CS_MASK \<noteq> 0), s'))"

text \<open>
  The configuration of pin \<open>n\<close> (8 to 15) in a CRH register is the nibble at bit
  \<open>4 * (n - 8)\<close>; the value 4 is a floating input, the reset state of a pin.
\<close>

definition pin_cfg :: "32 word \<Rightarrow> nat \<Rightarrow> 32 word" where
  "pin_cfg crh n = drop_bit (4 * (n - 8)) crh AND 0xF"

definition data_bus_released :: "hw \<Rightarrow> bool" where
  "data_bus_released s = list_all (\<lambda>n. pin_cfg (gpiob_crh s) n = 4) [8, 9, 10, 11, 12, 13, 14, 15]"

definition rq_released :: "hw \<Rightarrow> bool" where
  "rq_released s = (pin_cfg (gpioa_crh s) 8 = 4 \<and> pin_cfg (gpioa_crh s) 11 = 4)"

subsection \<open>Busy-wait loops\<close>

text \<open>\<^verbatim>\<open>while(ACSI_TIMER->CNT == 0);\<close>\<close>

function wait_tick :: "hw \<Rightarrow> unit option \<times> hw" where
  "wait_tick s = (case rd_cnt s of
       (None, s') \<Rightarrow> (None, s')
     | (Some v, s') \<Rightarrow> if v = 0 then wait_tick s' else (Some (), s'))"
  by pat_completeness auto
termination
  by (relation "measure (\<lambda>s. length (tim_cnt s))")
     (auto simp: rd_cnt_def emit_def split: list.splits)

declare wait_tick.simps [simp del]

text \<open>
  \<^verbatim>\<open>while(readCs());\<close> is \<open>wait_while_cs True\<close> and \<^verbatim>\<open>while(!readCs());\<close> is
  \<open>wait_while_cs False\<close>.
\<close>

function wait_while_cs :: "bool \<Rightarrow> hw \<Rightarrow> unit option \<times> hw" where
  "wait_while_cs lvl s = (case readCs s of
       (None, s') \<Rightarrow> (None, s')
     | (Some cs, s') \<Rightarrow> if cs = lvl then wait_while_cs lvl s' else (Some (), s'))"
  by pat_completeness auto
termination
  by (relation "measure (\<lambda>(lvl, s). length (gpiob_idr s))")
     (auto simp: readCs_def rd_gpiob_def emit_def split: list.splits)

declare wait_while_cs.simps [simp del]

text \<open>
  \<^verbatim>\<open>while((port = GPIOB->regs->IDR) & m);\<close> with \<open>port\<close> a \<open>uint16_t\<close>: the loop ends
  on the first sample with all bits of \<open>m\<close> clear and leaves that sample in \<open>port\<close>.
\<close>

function sample_until_clear :: "32 word \<Rightarrow> hw \<Rightarrow> 16 word option \<times> hw" where
  "sample_until_clear m s = (case rd_gpiob s of
       (None, s') \<Rightarrow> (None, s')
     | (Some v, s') \<Rightarrow>
         (let port = (ucast v :: 16 word)
          in if (ucast port :: 32 word) AND m \<noteq> 0 then sample_until_clear m s'
             else (Some port, s')))"
  by pat_completeness auto
termination
  by (relation "measure (\<lambda>(m, s). length (gpiob_idr s))")
     (auto simp: rd_gpiob_def emit_def split: list.splits)

declare sample_until_clear.simps [simp del]

subsection \<open>Command capture\<close>

text \<open>
  The device check of \<open>waitCommand\<close>: \<^verbatim>\<open>(1 << (port >> (8+5))) & mask\<close>. The
  parameter \<open>mask\<close> is written \<open>msk\<close>, since \<open>mask\<close> is a constant of the word library.
\<close>

definition device_bit :: "16 word \<Rightarrow> 8 word \<Rightarrow> 32 word" where
  "device_bit port msk = push_bit (unat (drop_bit 13 port)) (1 :: 32 word) AND ucast msk"

lemma sample_until_clear_consumes:
  "sample_until_clear m s = (Some port, s') \<Longrightarrow> length (gpiob_idr s') < length (gpiob_idr s)"
proof (induction m s rule: sample_until_clear.induct)
  case (1 m s)
  show ?case
  proof (cases "gpiob_idr s")
    case Nil
    with "1.prems" show ?thesis
      by (simp add: sample_until_clear.simps [of m s] rd_gpiob_def)
  next
    case (Cons v vs)
    let ?s1 = "emit (RdGpiobIdr v) (s\<lparr>gpiob_idr := vs\<rparr>)"
    have rd: "rd_gpiob s = (Some v, ?s1)"
      by (simp add: rd_gpiob_def Cons)
    have len: "length (gpiob_idr ?s1) < length (gpiob_idr s)"
      by (simp add: emit_def Cons)
    show ?thesis
    proof (cases "(ucast (ucast v :: 16 word) :: 32 word) AND m \<noteq> 0")
      case True
      with "1.prems" rd have "sample_until_clear m ?s1 = (Some port, s')"
        by (simp add: sample_until_clear.simps [of m s])
      with "1.IH" [OF rd [symmetric] refl refl True]
      have "length (gpiob_idr s') < length (gpiob_idr ?s1)" by simp
      with len show ?thesis by simp
    next
      case False
      with "1.prems" rd have "s' = ?s1"
        by (simp add: sample_until_clear.simps [of m s])
      with len show ?thesis by simp
    qed
  qed
qed

lemma idle_gpiob: "idle s = (r, s') \<Longrightarrow> gpiob_idr s' = gpiob_idr s"
  by (auto simp: idle_def rd_gpioa_def emit_def split: list.splits)

text \<open>
  The \<open>do ... while\<close> loop of \<open>waitCommand\<close>: take the next sample with A1 and CS low,
  leave the loop when its device bit is in the mask and \<open>idle()\<close> holds. \<open>||\<close> does not
  evaluate \<open>idle()\<close> when the device bit is not in the mask.
\<close>

function wait_strobe :: "8 word \<Rightarrow> hw \<Rightarrow> 16 word option \<times> hw" where
  "wait_strobe msk s = (case sample_until_clear (A1_MASK OR CS_MASK) s of
       (None, s1) \<Rightarrow> (None, s1)
     | (Some port, s1) \<Rightarrow>
         if device_bit port msk = 0 then wait_strobe msk s1
         else (case idle s1 of
                 (None, s2) \<Rightarrow> (None, s2)
               | (Some i, s2) \<Rightarrow> if \<not> i then wait_strobe msk s2 else (Some port, s2)))"
  by pat_completeness auto
termination
proof (relation "measure (\<lambda>(msk, s). length (gpiob_idr s))", goal_cases)
  case 1
  show ?case by simp
next
  case (2 msk s x1 s1 port)
  then show ?case
    using sample_until_clear_consumes [of "A1_MASK OR CS_MASK" s port s1] by simp
next
  case (3 msk s x1 s1 port x2 s2 i)
  then show ?case
    using sample_until_clear_consumes [of "A1_MASK OR CS_MASK" s port s1]
      idle_gpiob [of s1 x2 s2] by simp
qed

declare wait_strobe.simps [simp del]

definition waitCommand :: "8 word \<Rightarrow> hw \<Rightarrow> 8 word option \<times> hw" where
  "waitCommand msk s =
     (case wait_strobe msk (systick_disable s) of
        (None, s1) \<Rightarrow> (None, s1)
      | (Some port, s1) \<Rightarrow>
          (case wait_while_cs False s1 of
             (None, s2) \<Rightarrow> (None, s2)
           | (Some _, s2) \<Rightarrow> (Some (ucast (drop_bit 8 port)), systick_enable s2)))"

subsection \<open>Signed 32-bit arithmetic without wrap-around\<close>

lemma sint_sub_no_wrap:
  "- (2 ^ 31) \<le> sint (a :: 32 word) - sint b \<Longrightarrow> sint a - sint b < 2 ^ 31 \<Longrightarrow>
   sint (a - b) = sint a - sint b"
  by (simp add: sint_word_ariths signed_take_bit_int_eq_self)

lemma sint_add_no_wrap:
  "- (2 ^ 31) \<le> sint (a :: 32 word) + sint b \<Longrightarrow> sint a + sint b < 2 ^ 31 \<Longrightarrow>
   sint (a + b) = sint a + sint b"
  by (simp add: sint_word_ariths signed_take_bit_int_eq_self)

lemma sint_pred: "0 < sint (c :: 32 word) \<Longrightarrow> sint (c - 1) = sint c - 1"
  using sint_sub_no_wrap [of c 1] sint_lt [of c] by simp

subsection \<open>Interrupt byte protocol\<close>

text \<open>\<open>uint8_t Acsi::readIrq()\<close>\<close>

definition readIrq :: "hw \<Rightarrow> 8 word option \<times> hw" where
  "readIrq s =
     (case sample_until_clear CS_MASK (pullIrq (systick_disable s)) of
        (None, s1) \<Rightarrow> (None, s1)
      | (Some b, s1) \<Rightarrow> (Some (ucast (drop_bit 8 b)), systick_enable (releaseRq s1)))"

text \<open>
  The loop of \<open>void Acsi::readIrq(uint8_t *bytes, int count)\<close>; \<open>count\<close> is a 32-bit
  \<open>int\<close>, compared signed.
\<close>

function readIrq_loop :: "nat \<Rightarrow> 32 word \<Rightarrow> hw \<Rightarrow> unit option \<times> hw" where
  "readIrq_loop bytes count s =
     (if 0 <s count then
        (case readIrq s of
           (None, s') \<Rightarrow> (None, s')
         | (Some b, s') \<Rightarrow> readIrq_loop (bytes + 1) (count - 1) (s'\<lparr>mem := (mem s')(bytes := b)\<rparr>))
      else (Some (), s))"
  by pat_completeness auto
termination
proof (relation "measure (\<lambda>(bytes, count, s). nat (sint count))", goal_cases)
  case 1
  show ?case by simp
next
  case (2 bytes count s x1 s' b)
  from \<open>0 <s count\<close> have pos: "0 < sint count" by (simp add: word_sless_alt)
  have "sint (count - 1) = sint count - 1"
    by (rule sint_pred [OF pos])
  with pos show ?case by simp
qed

declare readIrq_loop.simps [simp del]

text \<open>\<open>void Acsi::readIrq(uint8_t *bytes, int count)\<close>\<close>

definition readIrq_buf :: "nat \<Rightarrow> 32 word \<Rightarrow> hw \<Rightarrow> unit option \<times> hw" where
  "readIrq_buf bytes count s =
     (case readIrq_loop bytes count (systick_disable s) of
        (None, s1) \<Rightarrow> (None, s1)
      | (Some _, s1) \<Rightarrow>
          (case wait_while_cs False s1 of
             (None, s2) \<Rightarrow> (None, s2)
           | (Some _, s2) \<Rightarrow> (Some (), systick_enable s2)))"

text \<open>\<open>void Acsi::sendIrq(uint8_t byte)\<close>\<close>

definition sendIrq :: "8 word \<Rightarrow> hw \<Rightarrow> unit option \<times> hw" where
  "sendIrq byte s =
     (case wait_while_cs True (pullIrq (writeData byte (acquireDataBus (systick_disable s)))) of
        (None, s1) \<Rightarrow> (None, s1)
      | (Some _, s1) \<Rightarrow>
          (case wait_while_cs False s1 of
             (None, s2) \<Rightarrow> (None, s2)
           | (Some _, s2) \<Rightarrow> (Some (), systick_enable (releaseBus s2))))"

text \<open>The loop of \<open>void Acsi::sendIrq(const uint8_t *bytes, int count)\<close>, which is the whole function.\<close>

function sendIrq_buf :: "nat \<Rightarrow> 32 word \<Rightarrow> hw \<Rightarrow> unit option \<times> hw" where
  "sendIrq_buf bytes count s =
     (if 0 <s count then
        (case sendIrq (mem s bytes) s of
           (None, s') \<Rightarrow> (None, s')
         | (Some _, s') \<Rightarrow> sendIrq_buf (bytes + 1) (count - 1) s')
      else (Some (), s))"
  by pat_completeness auto
termination
proof (relation "measure (\<lambda>(bytes, count, s). nat (sint count))", goal_cases)
  case 1
  show ?case by simp
next
  case (2 bytes count s x1 s' u)
  from \<open>0 <s count\<close> have pos: "0 < sint count" by (simp add: word_sless_alt)
  have "sint (count - 1) = sint count - 1"
    by (rule sint_pred [OF pos])
  with pos show ?case by simp
qed

declare sendIrq_buf.simps [simp del]

subsection \<open>Block transfer engine\<close>

text \<open>
  The macro \<open>ACSI_READ_BYTE(b)\<close>: reset the counter, wait for the tick, store the high
  byte of the captured port value into \<open>bytes[b]\<close>.
\<close>

definition ACSI_READ_BYTE :: "nat \<Rightarrow> nat \<Rightarrow> hw \<Rightarrow> unit option \<times> hw" where
  "ACSI_READ_BYTE bytes b s =
     (case wait_tick (wr_cnt 0 s) of
        (None, s1) \<Rightarrow> (None, s1)
      | (Some _, s1) \<Rightarrow>
          (case rd_ccr1 s1 of
             (None, s2) \<Rightarrow> (None, s2)
           | (Some v, s2) \<Rightarrow> (Some (), s2\<lparr>mem := (mem s2)(bytes + b := ucast (drop_bit 8 v))\<rparr>)))"

text \<open>
  The macro \<open>ACSI_SEND_BYTE(b)\<close>: drive \<open>bytes[b]\<close> on the data bus, reset the counter,
  wait for the tick.
\<close>

definition ACSI_SEND_BYTE :: "nat \<Rightarrow> nat \<Rightarrow> hw \<Rightarrow> unit option \<times> hw" where
  "ACSI_SEND_BYTE bytes b s = wait_tick (wr_cnt 0 (writeData (mem s (bytes + b)) s))"

text \<open>
  \<open>readDma\<close> and \<open>sendDma\<close> have the same two loops around their macro; the loops are
  written once, over the macro they expand.
\<close>

datatype macro = READ_BYTE | SEND_BYTE

definition acsi_byte :: "macro \<Rightarrow> nat \<Rightarrow> nat \<Rightarrow> hw \<Rightarrow> unit option \<times> hw" where
  "acsi_byte m bytes b s =
     (case m of READ_BYTE \<Rightarrow> ACSI_READ_BYTE bytes b s | SEND_BYTE \<Rightarrow> ACSI_SEND_BYTE bytes b s)"

fun run_bytes :: "macro \<Rightarrow> nat \<Rightarrow> nat list \<Rightarrow> hw \<Rightarrow> unit option \<times> hw" where
  "run_bytes m bytes [] s = (Some (), s)"
| "run_bytes m bytes (b # bs) s =
     (case acsi_byte m bytes b s of
        (None, s') \<Rightarrow> (None, s')
      | (Some _, s') \<Rightarrow> run_bytes m bytes bs s')"

text \<open>The body of the unrolled loop: the macro at offsets 0 to 15.\<close>

definition unrolled16 :: "macro \<Rightarrow> nat \<Rightarrow> hw \<Rightarrow> unit option \<times> hw" where
  "unrolled16 m bytes s = run_bytes m bytes [0, 1, 2, 3, 4, 5, 6, 7, 8, 9, 10, 11, 12, 13, 14, 15] s"

lemma wait_tick_consumes:
  "wait_tick s = (Some u, s') \<Longrightarrow> length (tim_cnt s') < length (tim_cnt s)"
proof (induction s rule: wait_tick.induct)
  case (1 s)
  show ?case
  proof (cases "tim_cnt s")
    case Nil
    with "1.prems" show ?thesis
      by (simp add: wait_tick.simps [of s] rd_cnt_def)
  next
    case (Cons v vs)
    let ?s1 = "emit (RdCnt v) (s\<lparr>tim_cnt := vs\<rparr>)"
    have rd: "rd_cnt s = (Some v, ?s1)"
      by (simp add: rd_cnt_def Cons)
    have len: "length (tim_cnt ?s1) < length (tim_cnt s)"
      by (simp add: emit_def Cons)
    show ?thesis
    proof (cases "v = 0")
      case True
      with "1.prems" rd have "wait_tick ?s1 = (Some u, s')"
        by (simp add: wait_tick.simps [of s])
      with "1.IH" [OF rd [symmetric] refl True]
      have "length (tim_cnt s') < length (tim_cnt ?s1)" by simp
      with len show ?thesis by simp
    next
      case False
      with "1.prems" rd have "s' = ?s1"
        by (simp add: wait_tick.simps [of s])
      with len show ?thesis by simp
    qed
  qed
qed

lemma acsi_byte_consumes:
  "acsi_byte m bytes b s = (Some u, s') \<Longrightarrow> length (tim_cnt s') < length (tim_cnt s)"
proof (cases m)
  case READ_BYTE
  assume "acsi_byte m bytes b s = (Some u, s')"
  with READ_BYTE obtain s1 where w: "wait_tick (wr_cnt 0 s) = (Some (), s1)"
    and le: "length (tim_cnt s') \<le> length (tim_cnt s1)"
    by (auto simp: acsi_byte_def ACSI_READ_BYTE_def rd_ccr1_def emit_def
        split: prod.splits option.splits list.splits)
  from wait_tick_consumes [OF w] le show ?thesis
    by (simp add: wr_cnt_def emit_def)
next
  case SEND_BYTE
  assume "acsi_byte m bytes b s = (Some u, s')"
  with SEND_BYTE have "wait_tick (wr_cnt 0 (writeData (mem s (bytes + b)) s)) = (Some u, s')"
    by (simp add: acsi_byte_def ACSI_SEND_BYTE_def)
  from wait_tick_consumes [OF this] show ?thesis
    by (simp add: wr_cnt_def writeData_def emit_def Let_def)
qed

lemma run_bytes_consumes:
  "run_bytes m bytes bs s = (Some u, s') \<Longrightarrow> length (tim_cnt s') + length bs \<le> length (tim_cnt s)"
proof (induction bs arbitrary: s)
  case Nil
  then show ?case by simp
next
  case (Cons b bs)
  from Cons.prems obtain s1 where a: "acsi_byte m bytes b s = (Some (), s1)"
    and r: "run_bytes m bytes bs s1 = (Some u, s')"
    by (auto split: prod.splits option.splits)
  from Cons.IH [OF r] acsi_byte_consumes [OF a] show ?case by simp
qed

lemma unrolled16_consumes:
  "unrolled16 m bytes s = (Some u, s') \<Longrightarrow> length (tim_cnt s') < length (tim_cnt s)"
  unfolding unrolled16_def by (drule run_bytes_consumes) simp

text \<open>
  \<^verbatim>\<open>for(i = 0; i <= count - 16; i += 16) { ...; bytes += 16; }\<close> with \<open>i\<close> and
  \<open>count\<close> 32-bit \<open>int\<close>s. The guard subtracts two \<open>int\<close>s: when \<open>count - 16\<close> is
  below \<open>- 2 ^ 31\<close> the subtraction overflows, which C++ leaves undefined, and the model
  stops there with \<open>Inl SignedOverflow\<close> instead of choosing a value. When the guard
  holds, \<open>i + 16 \<le> count\<close>, so \<open>i += 16\<close> does not overflow; the comparison is signed.
\<close>

datatype undefined_behaviour = SignedOverflow

function dma_loop16 ::
  "macro \<Rightarrow> 32 word \<Rightarrow> 32 word \<Rightarrow> nat \<Rightarrow> hw \<Rightarrow> undefined_behaviour + ((32 word \<times> nat) option \<times> hw)" where
  "dma_loop16 m count i bytes s =
     (if sint count - 16 < - (2 ^ 31) then Inl SignedOverflow
      else if i \<le>s count - 16 then
        (case unrolled16 m bytes s of
           (None, s') \<Rightarrow> Inr (None, s')
         | (Some _, s') \<Rightarrow> dma_loop16 m count (i + 16) (bytes + 16) s')
      else Inr (Some (i, bytes), s))"
  by pat_completeness auto
termination
proof (relation "measure (\<lambda>(m, count, i, bytes, s). length (tim_cnt s))", goal_cases)
  case 1
  show ?case by simp
next
  case (2 m count i bytes s x1 s' u)
  then show ?case
    using unrolled16_consumes [of m bytes s u s'] by simp
qed

declare dma_loop16.simps [simp del]

text \<open>
  \<^verbatim>\<open>while(i < count) { MACRO(0); ++i; ++bytes; }\<close>: \<open>++i\<close> runs under \<open>i < count\<close>
  and does not overflow.
\<close>

function dma_loop1 :: "macro \<Rightarrow> 32 word \<Rightarrow> 32 word \<Rightarrow> nat \<Rightarrow> hw \<Rightarrow> (32 word \<times> nat) option \<times> hw" where
  "dma_loop1 m count i bytes s =
     (if i <s count then
        (case acsi_byte m bytes 0 s of
           (None, s') \<Rightarrow> (None, s')
         | (Some _, s') \<Rightarrow> dma_loop1 m count (i + 1) (bytes + 1) s')
      else (Some (i, bytes), s))"
  by pat_completeness auto
termination
proof (relation "measure (\<lambda>(m, count, i, bytes, s). length (tim_cnt s))", goal_cases)
  case 1
  show ?case by simp
next
  case (2 m count i bytes s x1 s' u)
  then show ?case
    using acsi_byte_consumes [of m bytes 0 s u s'] by simp
qed

declare dma_loop1.simps [simp del]

text \<open>\<open>void Acsi::readDma(uint8_t *bytes, int count)\<close>\<close>

definition readDma :: "nat \<Rightarrow> 32 word \<Rightarrow> hw \<Rightarrow> undefined_behaviour + (unit option \<times> hw)" where
  "readDma bytes count s =
     (case dma_loop16 READ_BYTE count 0 bytes (acquireDrq (systick_disable s)) of
        Inl e \<Rightarrow> Inl e
      | Inr (None, s1) \<Rightarrow> Inr (None, s1)
      | Inr (Some (i, bytes'), s1) \<Rightarrow>
          (case dma_loop1 READ_BYTE count i bytes' s1 of
             (None, s2) \<Rightarrow> Inr (None, s2)
           | (Some _, s2) \<Rightarrow> Inr (Some (), systick_enable (releaseBus s2))))"

text \<open>\<open>void Acsi::sendDma(const uint8_t *bytes, int count)\<close>\<close>

definition sendDma :: "nat \<Rightarrow> 32 word \<Rightarrow> hw \<Rightarrow> undefined_behaviour + (unit option \<times> hw)" where
  "sendDma bytes count s =
     (case dma_loop16 SEND_BYTE count 0 bytes (acquireDrq (acquireDataBus (systick_disable s))) of
        Inl e \<Rightarrow> Inl e
      | Inr (None, s1) \<Rightarrow> Inr (None, s1)
      | Inr (Some (i, bytes'), s1) \<Rightarrow>
          (case dma_loop1 SEND_BYTE count i bytes' s1 of
             (None, s2) \<Rightarrow> Inr (None, s2)
           | (Some _, s2) \<Rightarrow> Inr (Some (), systick_enable (releaseBus s2))))"

subsection \<open>The block transfers as the specification words them\<close>

text \<open>
  One byte at a time, \<open>n\<close> times: the same reset, wait and capture (or drive) sequence for
  each byte, with no batching.
\<close>

fun per_byte :: "macro \<Rightarrow> nat \<Rightarrow> nat \<Rightarrow> hw \<Rightarrow> unit option \<times> hw" where
  "per_byte m bytes 0 s = (Some (), s)"
| "per_byte m bytes (Suc n) s =
     (case acsi_byte m bytes 0 s of
        (None, s') \<Rightarrow> (None, s')
      | (Some _, s') \<Rightarrow> per_byte m (Suc bytes) n s')"

definition readBlock_bytewise :: "nat \<Rightarrow> 32 word \<Rightarrow> hw \<Rightarrow> unit option \<times> hw" where
  "readBlock_bytewise bytes count s =
     (case per_byte READ_BYTE bytes (nat (sint count)) (acquireDrq (systick_disable s)) of
        (None, s1) \<Rightarrow> (None, s1)
      | (Some _, s1) \<Rightarrow> (Some (), systick_enable (releaseBus s1)))"

definition writeBlock_bytewise :: "nat \<Rightarrow> 32 word \<Rightarrow> hw \<Rightarrow> unit option \<times> hw" where
  "writeBlock_bytewise bytes count s =
     (case per_byte SEND_BYTE bytes (nat (sint count))
             (acquireDrq (acquireDataBus (systick_disable s))) of
        (None, s1) \<Rightarrow> (None, s1)
      | (Some _, s1) \<Rightarrow> (Some (), systick_enable (releaseBus s1)))"

text \<open>The two loops of a block transfer, one after the other.\<close>

definition both_loops ::
  "macro \<Rightarrow> 32 word \<Rightarrow> 32 word \<Rightarrow> nat \<Rightarrow> hw \<Rightarrow> undefined_behaviour + (unit option \<times> hw)" where
  "both_loops m count i bytes s =
     (case dma_loop16 m count i bytes s of
        Inl e \<Rightarrow> Inl e
      | Inr (None, s1) \<Rightarrow> Inr (None, s1)
      | Inr (Some (i', bytes'), s1) \<Rightarrow>
          (case dma_loop1 m count i' bytes' s1 of
             (None, s2) \<Rightarrow> Inr (None, s2)
           | (Some _, s2) \<Rightarrow> Inr (Some (), s2)))"

subsection \<open>States for running the engine\<close>

text \<open>
  The state after reset (all pins floating inputs, systick running), with the values the
  hardware will deliver on GPIOA IDR, GPIOB IDR, the timer counter and CCR1, and a
  memory.
\<close>

definition hw_init ::
  "32 word list \<Rightarrow> 32 word list \<Rightarrow> 16 word list \<Rightarrow> 16 word list \<Rightarrow> (nat \<Rightarrow> 8 word) \<Rightarrow> hw" where
  "hw_init a b c d m =
     \<lparr>gpioa_crh = 0x44444444, gpiob_crh = 0x44444444, gpiob_odr = 0, systick = True, mem = m,
      gpioa_idr = a, gpiob_idr = b, tim_cnt = c, tim_ccr1 = d, trace = []\<rparr>"

text \<open>
  A state in which every transfer of one byte returns: CS is seen high, low, then high
  again, and the timer delivers one tick.
\<close>

definition test_hw :: hw where
  "test_hw = hw_init [] [0x1280, 0x1200, 0x0080] [1] [0xAB00] (\<lambda>_. 0x5A)"

text \<open>
  A writing and a reading engine for a block of 17 bytes: the memory of the writer holds
  1, 2, ... from address 0; its timer shows some reads without a tick and one double
  tick; the reader captures the bytes the writer drives, once with other pins high.
\<close>

definition sender_hw :: hw where
  "sender_hw = hw_init [] [] [0, 0, 1, 1, 2, 1, 1, 1, 1, 1, 1, 1, 1, 1, 1, 1, 1, 1, 1] []
     (\<lambda>a. of_nat a + 1)"

definition reader_hw :: hw where
  "reader_hw = hw_init [] [] [1, 1, 1, 0, 1, 1, 1, 1, 1, 1, 1, 1, 1, 1, 1, 1, 1, 1]
     [0x0100, 0x02FF, 0x0300, 0x0400, 0x0500, 0x0600, 0x0700, 0x0800, 0x0900, 0x0A00, 0x0B00,
      0x0C00, 0x0D00, 0x0E00, 0x0F00, 0x1000, 0x1100]
     (\<lambda>_. 0)"

subsection \<open>Vocabulary of the properties\<close>

fun is_systick :: "event \<Rightarrow> bool" where
  "is_systick SystickDisable = True"
| "is_systick SystickEnable = True"
| "is_systick _ = False"

text \<open>The events recorded between two states, oldest first.\<close>

definition new_events :: "hw \<Rightarrow> hw \<Rightarrow> event list" where
  "new_events s s' = rev (take (length (trace s') - length (trace s)) (trace s'))"

text \<open>
  A run of events that keeps systick off for its whole duration: it opens with
  \<open>SystickDisable\<close>, closes with \<open>SystickEnable\<close>, and systick is not switched in between.
\<close>

definition bracketed :: "event list \<Rightarrow> bool" where
  "bracketed es =
     (case es of
        [] \<Rightarrow> False
      | e # rest \<Rightarrow>
          e = SystickDisable \<and> rest \<noteq> [] \<and> last rest = SystickEnable \<and>
          list_all (\<lambda>e. \<not> is_systick e) (butlast rest))"

text \<open>
  A run of events of an operation that has not returned: it opens with \<open>SystickDisable\<close>
  and systick has not been switched since.
\<close>

definition pending :: "event list \<Rightarrow> bool" where
  "pending es =
     (case es of [] \<Rightarrow> False | e # rest \<Rightarrow> e = SystickDisable \<and> list_all (\<lambda>e. \<not> is_systick e) rest)"

text \<open>
  Systick is held off between two states of an operation: over the whole run when the
  operation has returned, in which case it is on again, and so far when it has not.
\<close>

definition systick_held :: "bool \<Rightarrow> hw \<Rightarrow> hw \<Rightarrow> bool" where
  "systick_held returned s s' =
     (if returned then bracketed (new_events s s') \<and> systick s'
      else pending (new_events s s') \<and> \<not> systick s')"

text \<open>A step that does not switch systick.\<close>

definition quiet :: "hw \<Rightarrow> hw \<Rightarrow> bool" where
  "quiet s s' =
     (systick s' = systick s \<and>
      (\<exists>evs. trace s' = evs @ trace s \<and> list_all (\<lambda>e. \<not> is_systick e) evs))"

text \<open>A step that only adds events to the trace.\<close>

definition extends :: "hw \<Rightarrow> hw \<Rightarrow> bool" where
  "extends s s' = (\<exists>evs. trace s' = evs @ trace s)"

fun is_read :: "event \<Rightarrow> bool" where
  "is_read (RdGpioaIdr v) = True"
| "is_read (RdGpiobIdr v) = True"
| "is_read (RdCnt v) = True"
| "is_read (RdCcr1 v) = True"
| "is_read _ = False"

text \<open>A step that only reads registers and leaves the memory as it is.\<close>

definition reads_only :: "hw \<Rightarrow> hw \<Rightarrow> bool" where
  "reads_only s s' = (mem s' = mem s \<and> (\<exists>evs. trace s' = evs @ trace s \<and> list_all is_read evs))"

text \<open>The values driven on the data bus (the writes to GPIOB ODR) in a run of events.\<close>

fun odr_writes :: "event list \<Rightarrow> 32 word list" where
  "odr_writes [] = []"
| "odr_writes (WrGpiobOdr v # es) = v # odr_writes es"
| "odr_writes (_ # es) = odr_writes es"

text \<open>
  The outcome of a block transfer: whether it has returned, and the state it has reached
  (the state it started from when its behaviour is undefined).
\<close>

definition dma_returned :: "undefined_behaviour + (unit option \<times> hw) \<Rightarrow> bool" where
  "dma_returned x = (case x of Inl e \<Rightarrow> False | Inr (r, t) \<Rightarrow> r \<noteq> None)"

definition dma_final :: "hw \<Rightarrow> undefined_behaviour + (unit option \<times> hw) \<Rightarrow> hw" where
  "dma_final s x = (case x of Inl e \<Rightarrow> s | Inr (r, t) \<Rightarrow> t)"

text \<open>
  A loopback connection is the far side of the bus: it takes the bytes of a writing engine
  and plays them back to a reading engine, one per byte slot. It sees the pins only. A
  byte slot opens when the counter is set to 0 while DRQ is the timer's output (DRQ goes
  low), and is completed when the engine next reads a non-zero counter (the acknowledge
  has come). Setting the counter to another value, or taking DRQ from the timer, closes
  the slot without a transfer.
\<close>

definition drq_driven :: "32 word \<Rightarrow> bool" where
  "drq_driven crh = (pin_cfg crh 11 = 0xB)"

definition data_pins :: "32 word \<Rightarrow> 32 word \<Rightarrow> bool" where
  "data_pins cfg crh = list_all (\<lambda>n. pin_cfg crh n = cfg) [8, 9, 10, 11, 12, 13, 14, 15]"

text \<open>
  The writing side. The byte taken in a slot is what port B drives at the time: the value
  of ODR, when the data pins are push-pull outputs (configuration 3) and neither ODR nor
  the direction of the pins has changed since the slot opened; otherwise nothing that
  can be relied on (\<open>None\<close>). \<open>l_done\<close> collects the slots completed, oldest first.
\<close>

record line =
  l_crha :: "32 word"
  l_crhb :: "32 word"
  l_odr :: "32 word"
  l_slot :: "32 word option option"
  l_done :: "32 word option list"

fun wr_step :: "line \<Rightarrow> event \<Rightarrow> line" where
  "wr_step l (WrGpioaCrh v) = l\<lparr>l_crha := v, l_slot := (if drq_driven v then l_slot l else None)\<rparr>"
| "wr_step l (WrGpiobCrh v) = l\<lparr>l_crhb := v, l_slot := map_option (\<lambda>_. None) (l_slot l)\<rparr>"
| "wr_step l (WrGpiobOdr v) = l\<lparr>l_odr := v, l_slot := map_option (\<lambda>_. None) (l_slot l)\<rparr>"
| "wr_step l (WrCnt v) =
     (if v = 0 \<and> drq_driven (l_crha l)
      then l\<lparr>l_slot := Some (if data_pins 3 (l_crhb l) then Some (l_odr l) else None)\<rparr>
      else l\<lparr>l_slot := None\<rparr>)"
| "wr_step l (RdCnt c) =
     (if c = 0 then l
      else (case l_slot l of
              None \<Rightarrow> l
            | Some x \<Rightarrow> l\<lparr>l_slot := None, l_done := l_done l @ [x]\<rparr>))"
| "wr_step l _ = l"

definition line_of :: "hw \<Rightarrow> line" where
  "line_of s = \<lparr>l_crha = gpioa_crh s, l_crhb = gpiob_crh s, l_odr = gpiob_odr s,
               l_slot = None, l_done = []\<rparr>"

definition sent :: "line \<Rightarrow> event list \<Rightarrow> 32 word option list" where
  "sent l evs = l_done (foldl wr_step l evs)"

text \<open>
  The reading side. When slot number \<open>j\<close> is completed with the data pins of the reader
  floating inputs (configuration 4), the byte sampler holds the byte of slot \<open>j\<close> of the
  writer on bits 8 to 15, until the next slot is completed. A read of CCR1 is checked
  against it; a read of CCR1 before any slot is completed, or for a slot in which the
  writer drove nothing that can be relied on, is not constrained. \<open>r_ok\<close> tells whether
  every read of CCR1 so far agrees with the connection.
\<close>

record rline =
  r_crha :: "32 word"
  r_crhb :: "32 word"
  r_open :: bool
  r_n :: nat
  r_cap :: "nat option"
  r_ok :: bool

definition slot_byte :: "32 word option list \<Rightarrow> nat \<Rightarrow> 32 word option" where
  "slot_byte slots j = (if j < length slots then slots ! j else None)"

definition agrees :: "32 word option list \<Rightarrow> nat \<Rightarrow> 16 word \<Rightarrow> bool" where
  "agrees slots j v =
     (case slot_byte slots j of
        None \<Rightarrow> True
      | Some w \<Rightarrow> drop_bit 8 v = drop_bit 8 (ucast w :: 16 word))"

fun rd_step :: "32 word option list \<Rightarrow> rline \<Rightarrow> event \<Rightarrow> rline" where
  "rd_step slots r (WrGpioaCrh v) = r\<lparr>r_crha := v, r_open := (r_open r \<and> drq_driven v)\<rparr>"
| "rd_step slots r (WrGpiobCrh v) = r\<lparr>r_crhb := v\<rparr>"
| "rd_step slots r (WrCnt v) = r\<lparr>r_open := (v = 0 \<and> drq_driven (r_crha r))\<rparr>"
| "rd_step slots r (RdCnt c) =
     (if c \<noteq> 0 \<and> r_open r
      then r\<lparr>r_open := False, r_n := Suc (r_n r),
             r_cap := (if data_pins 4 (r_crhb r) then Some (r_n r) else None)\<rparr>
      else r)"
| "rd_step slots r (RdCcr1 v) =
     (case r_cap r of
        None \<Rightarrow> r
      | Some j \<Rightarrow> r\<lparr>r_ok := (r_ok r \<and> agrees slots j v)\<rparr>)"
| "rd_step slots r _ = r"

definition rline_of :: "hw \<Rightarrow> rline" where
  "rline_of s = \<lparr>r_crha = gpioa_crh s, r_crhb = gpiob_crh s, r_open = False, r_n = 0,
                r_cap = None, r_ok = True\<rparr>"

definition loopback :: "32 word option list \<Rightarrow> rline \<Rightarrow> event list \<Rightarrow> bool" where
  "loopback slots r evs = r_ok (foldl (rd_step slots) r evs)"

text \<open>The walkers are ready for a byte slot.\<close>

definition wr_ready :: "line \<Rightarrow> bool" where
  "wr_ready l = (drq_driven (l_crha l) \<and> data_pins 3 (l_crhb l) \<and> l_slot l = None)"

definition rd_ready :: "rline \<Rightarrow> bool" where
  "rd_ready r = (drq_driven (r_crha r) \<and> data_pins 4 (r_crhb r))"

text \<open>
  The counter reads deliver at least \<open>n\<close> ticks: \<open>n\<close> times, some zero reads and then a
  non-zero read.
\<close>

fun ticks :: "nat \<Rightarrow> 16 word list \<Rightarrow> bool" where
  "ticks 0 cs = True"
| "ticks (Suc n) cs =
     (case dropWhile (\<lambda>c. c = 0) cs of [] \<Rightarrow> False | c # rest \<Rightarrow> ticks n rest)"

definition bus_released :: "hw \<Rightarrow> bool" where
  "bus_released s = (data_bus_released s \<and> rq_released s)"

text \<open>
  A sample of port B shows the strobe pattern of a new command when A1 and CS are both low;
  the command byte is on the data pins, and its top three bits are the device id.
\<close>

definition is_strobe :: "32 word \<Rightarrow> bool" where
  "is_strobe v = (v AND (A1_MASK OR CS_MASK) = 0)"

definition command_byte :: "32 word \<Rightarrow> 8 word" where
  "command_byte v = ucast (drop_bit 8 (ucast v :: 16 word))"

definition device_id :: "8 word \<Rightarrow> nat" where
  "device_id byte = unat (drop_bit 5 byte)"

text \<open>A sample that \<open>waitCommand\<close> answers: a strobe for a device of the mask.\<close>

definition accepts :: "8 word \<Rightarrow> 32 word \<Rightarrow> bool" where
  "accepts msk v = (is_strobe v \<and> bit msk (device_id (command_byte v)))"

section \<open>Properties of the engine\<close>

subsection \<open>The busy-wait loops in closed form\<close>

lemma wait_tick_closed:
  "wait_tick s =
     (case dropWhile (\<lambda>c. c = 0) (tim_cnt s) of
        [] \<Rightarrow> (None, s\<lparr>tim_cnt := [], trace := rev (map RdCnt (tim_cnt s)) @ trace s\<rparr>)
      | c # cs \<Rightarrow>
          (Some (), s\<lparr>tim_cnt := cs,
                       trace := RdCnt c # rev (map RdCnt (takeWhile (\<lambda>c. c = 0) (tim_cnt s))) @ trace s\<rparr>))"
proof (induction "tim_cnt s" arbitrary: s)
  case Nil
  then have "tim_cnt s = []" by simp
  then show ?case
    by (simp add: wait_tick.simps [of s] rd_cnt_def)
next
  case (Cons v vs)
  then have c: "tim_cnt s = v # vs" by simp
  let ?s1 = "emit (RdCnt v) (s\<lparr>tim_cnt := vs\<rparr>)"
  have ih: "wait_tick ?s1 =
     (case dropWhile (\<lambda>c. c = 0) vs of
        [] \<Rightarrow> (None, ?s1\<lparr>tim_cnt := [], trace := rev (map RdCnt vs) @ trace ?s1\<rparr>)
      | c # cs \<Rightarrow>
          (Some (), ?s1\<lparr>tim_cnt := cs,
                       trace := RdCnt c # rev (map RdCnt (takeWhile (\<lambda>c. c = 0) vs)) @ trace ?s1\<rparr>))"
    using Cons.hyps(1) [of ?s1] by (simp add: emit_def cong: list.case_cong)
  show ?case
  proof (cases "v = 0")
    case True
    then have step: "wait_tick s = wait_tick ?s1"
      by (simp add: wait_tick.simps [of s] rd_cnt_def c)
    show ?thesis
      unfolding step ih
      by (simp add: c True emit_def del: dropWhile_eq_Nil_conv split: list.split)
  next
    case False
    then show ?thesis
      by (simp add: wait_tick.simps [of s] rd_cnt_def c emit_def)
  qed
qed

lemma sample_until_clear_closed:
  "sample_until_clear m s =
     (case dropWhile (\<lambda>v. (ucast (ucast v :: 16 word) :: 32 word) AND m \<noteq> 0) (gpiob_idr s) of
        [] \<Rightarrow> (None, s\<lparr>gpiob_idr := [], trace := rev (map RdGpiobIdr (gpiob_idr s)) @ trace s\<rparr>)
      | v # vs \<Rightarrow>
          (Some (ucast v),
           s\<lparr>gpiob_idr := vs,
             trace := RdGpiobIdr v #
               rev (map RdGpiobIdr
                 (takeWhile (\<lambda>v. (ucast (ucast v :: 16 word) :: 32 word) AND m \<noteq> 0) (gpiob_idr s))) @
               trace s\<rparr>))"
proof (induction "gpiob_idr s" arbitrary: s)
  case Nil
  then have "gpiob_idr s = []" by simp
  then show ?case
    by (simp add: sample_until_clear.simps [of m s] rd_gpiob_def)
next
  case (Cons v vs)
  then have c: "gpiob_idr s = v # vs" by simp
  let ?P = "\<lambda>v. (ucast (ucast v :: 16 word) :: 32 word) AND m \<noteq> 0"
  let ?s1 = "emit (RdGpiobIdr v) (s\<lparr>gpiob_idr := vs\<rparr>)"
  have ih: "sample_until_clear m ?s1 =
     (case dropWhile ?P vs of
        [] \<Rightarrow> (None, ?s1\<lparr>gpiob_idr := [], trace := rev (map RdGpiobIdr vs) @ trace ?s1\<rparr>)
      | w # ws \<Rightarrow>
          (Some (ucast w),
           ?s1\<lparr>gpiob_idr := ws,
               trace := RdGpiobIdr w # rev (map RdGpiobIdr (takeWhile ?P vs)) @ trace ?s1\<rparr>))"
    using Cons.hyps(1) [of ?s1] by (simp add: emit_def cong: list.case_cong)
  show ?case
  proof (cases "?P v")
    case True
    then have step: "sample_until_clear m s = sample_until_clear m ?s1"
      by (simp add: sample_until_clear.simps [of m s] rd_gpiob_def c)
    show ?thesis
      unfolding step ih using True
      by (simp add: c emit_def del: dropWhile_eq_Nil_conv split: list.split)
  next
    case False
    then show ?thesis
      by (simp add: sample_until_clear.simps [of m s] rd_gpiob_def c emit_def)
  qed
qed

lemma wait_while_cs_closed:
  "wait_while_cs lvl s =
     (case dropWhile (\<lambda>v. (v AND CS_MASK \<noteq> 0) = lvl) (gpiob_idr s) of
        [] \<Rightarrow> (None, s\<lparr>gpiob_idr := [], trace := rev (map RdGpiobIdr (gpiob_idr s)) @ trace s\<rparr>)
      | v # vs \<Rightarrow>
          (Some (),
           s\<lparr>gpiob_idr := vs,
             trace := RdGpiobIdr v #
               rev (map RdGpiobIdr (takeWhile (\<lambda>v. (v AND CS_MASK \<noteq> 0) = lvl) (gpiob_idr s))) @
               trace s\<rparr>))"
proof (induction "gpiob_idr s" arbitrary: s)
  case Nil
  then have "gpiob_idr s = []" by simp
  then show ?case
    by (simp add: wait_while_cs.simps [of lvl s] readCs_def rd_gpiob_def)
next
  case (Cons v vs)
  then have c: "gpiob_idr s = v # vs" by simp
  let ?P = "\<lambda>v. (v AND CS_MASK \<noteq> 0) = lvl"
  let ?s1 = "emit (RdGpiobIdr v) (s\<lparr>gpiob_idr := vs\<rparr>)"
  have ih: "wait_while_cs lvl ?s1 =
     (case dropWhile ?P vs of
        [] \<Rightarrow> (None, ?s1\<lparr>gpiob_idr := [], trace := rev (map RdGpiobIdr vs) @ trace ?s1\<rparr>)
      | w # ws \<Rightarrow>
          (Some (),
           ?s1\<lparr>gpiob_idr := ws,
               trace := RdGpiobIdr w # rev (map RdGpiobIdr (takeWhile ?P vs)) @ trace ?s1\<rparr>))"
    using Cons.hyps(1) [of ?s1] by (simp add: emit_def cong: list.case_cong)
  show ?case
  proof (cases "?P v")
    case True
    then have step: "wait_while_cs lvl s = wait_while_cs lvl ?s1"
      by (simp add: wait_while_cs.simps [of lvl s] readCs_def rd_gpiob_def c)
    show ?thesis
      unfolding step ih using True
      by (simp add: c emit_def del: dropWhile_eq_Nil_conv split: list.split)
  next
    case False
    then show ?thesis
      by (simp add: wait_while_cs.simps [of lvl s] readCs_def rd_gpiob_def c emit_def)
  qed
qed

text \<open>The equations that run the engine on a given state.\<close>

lemmas run_defs = hw_init_def emit_def systick_disable_def systick_enable_def rd_gpioa_def rd_gpiob_def
  rd_cnt_def rd_ccr1_def wr_cnt_def idle_def releaseRq_def releaseDataBus_def releaseBus_def
  acquireDrq_def acquireDataBus_def pullIrq_def writeData_def readCs_def
  wait_tick.simps wait_while_cs.simps sample_until_clear.simps wait_strobe.simps
  ACSI_READ_BYTE_def ACSI_SEND_BYTE_def acsi_byte_def unrolled16_def 
  dma_loop16.simps dma_loop1.simps readDma_def sendDma_def Let_def

lemmas irq_defs = sendIrq_def readIrq_def readIrq_buf_def readIrq_loop.simps sendIrq_buf.simps
  CS_MASK_def A1_MASK_def word_sless_alt word_sle_eq

lemma test_hw_runs:
  "fst (sendIrq 0x5A test_hw) = Some ()"
  "fst (readIrq test_hw) = Some 0x12"
  "\<exists>t. readDma 0 1 test_hw = Inr (Some (), t)"
  "\<exists>t. sendDma 0 1 test_hw = Inr (Some (), t)"
  "fst (readIrq_buf 0 1 test_hw) = Some ()"
  "fst (sendIrq_buf 0 1 test_hw) = Some ()"
  by (simp_all add: test_hw_def run_defs irq_defs)

lemma test_hw_released: "bus_released test_hw"
  by (simp add: test_hw_def hw_init_def bus_released_def data_bus_released_def rq_released_def pin_cfg_def)

subsection \<open>Bus-idle query\<close>

lemma idle_of_always: "idle_of idr"
  unfolding idle_of_def IRQ_MASK_def DRQ_MASK_def ACK_MASK_def
  by (cases "idr AND (0x100 OR 0x800 OR 0x1000) = (0x100 :: 32 word)") simp_all

text \<open>
  C1. With all three of IRQ, DRQ and ACK low (asserted), \<open>idle\<close> still answers true, where
  the specified query answers false: the missing parentheses make the result independent
  of the lines.
\<close>

theorem idle_true_when_all_asserted:
  "idle_of 0 \<and> \<not> isIdle_spec 0 \<and>
   fst (idle \<lparr>gpioa_crh = 0, gpiob_crh = 0, gpiob_odr = 0, systick = True, mem = (\<lambda>_. 0),
              gpioa_idr = [0], gpiob_idr = [], tim_cnt = [], tim_ccr1 = [], trace = []\<rparr>) = Some True"
  by (simp add: idle_of_def isIdle_spec_def idle_def rd_gpioa_def emit_def
      IRQ_MASK_def DRQ_MASK_def ACK_MASK_def)

subsection \<open>Releasing the bus\<close>

text \<open>
  C8. Releasing the bus twice leaves both line-direction registers as releasing it once
  does, and \<open>releaseBus\<close> is \<open>releaseDataBus\<close> followed by \<open>releaseRq\<close>.
\<close>

theorem releaseBus_idempotent:
  "gpioa_crh (releaseBus (releaseBus s)) = gpioa_crh (releaseBus s) \<and>
   gpiob_crh (releaseBus (releaseBus s)) = gpiob_crh (releaseBus s) \<and>
   releaseBus s = releaseRq (releaseDataBus s)"
  by (simp add: releaseBus_def releaseRq_def releaseDataBus_def emit_def)


subsection \<open>Batches of 16 against one byte at a time\<close>

lemma acsi_byte_shift: "acsi_byte m (bytes + k) 0 s = acsi_byte m bytes k s"
  unfolding acsi_byte_def ACSI_READ_BYTE_def ACSI_SEND_BYTE_def add_0_right ..

lemma per_byte_add:
  "per_byte m bytes (a + b) s =
     (case per_byte m bytes a s of
        (None, s') \<Rightarrow> (None, s')
      | (Some _, s') \<Rightarrow> per_byte m (bytes + a) b s')"
  by (induction a arbitrary: bytes s) (auto split: prod.splits option.splits)

lemma run_bytes_per_byte:
  "run_bytes m bytes (map (\<lambda>k. j + k) [0..<n]) s = per_byte m (bytes + j) n s"
proof (induction n arbitrary: j s)
  case 0
  show ?case by simp
next
  case (Suc n)
  have l: "map (\<lambda>k. j + k) [0..<Suc n] = j # map (\<lambda>k. Suc j + k) [0..<n]"
    by (simp add: upt_rec [of 0 "Suc n"] map_Suc_upt [symmetric] del: upt_Suc)
  have ih: "run_bytes m bytes (map (\<lambda>k. Suc j + k) [0..<n]) t = per_byte m (Suc (bytes + j)) n t" for t
    using Suc.IH [of "Suc j" t] by simp
  show ?case
    unfolding l by (simp add: ih acsi_byte_shift split: prod.splits option.splits)
qed

lemma unrolled16_per_byte: "unrolled16 m bytes s = per_byte m bytes 16 s"
proof -
  have "[0, 1, 2, 3, 4, 5, 6, 7, 8, 9, 10, 11, 12, 13, 14, 15] = map (\<lambda>k. 0 + k) [0..<16::nat]"
    by (simp add: upt_rec)
  then show ?thesis
    unfolding unrolled16_def using run_bytes_per_byte [of m bytes 0 16 s] by simp
qed

lemma dma_loop1_per_byte:
  "dma_loop1 m count i bytes s =
     (case per_byte m bytes (nat (sint count - sint i)) s of
        (None, s') \<Rightarrow> (None, s')
      | (Some _, s') \<Rightarrow>
          (Some (if i <s count then count else i, bytes + nat (sint count - sint i)), s'))"
proof (induction m count i bytes s rule: dma_loop1.induct)
  case (1 m count i bytes s)
  show ?case
  proof (cases "i <s count")
    case False
    then have "nat (sint count - sint i) = 0" by (simp add: word_sless_alt)
    with False show ?thesis by (simp add: dma_loop1.simps [of m count i bytes s])
  next
    case True
    then have lt: "sint i < sint count" by (simp add: word_sless_alt)
    have s1: "sint (i + 1) = sint i + 1"
      using sint_add_no_wrap [of i 1] lt sint_lt [of count] sint_ge [of i] by simp
    from lt have n: "nat (sint count - sint i) = Suc (nat (sint count - sint (i + 1)))"
      by (simp add: s1)
    show ?thesis
    proof (cases "acsi_byte m bytes 0 s")
      case (Pair r s')
      show ?thesis
      proof (cases r)
        case None
        with Pair True show ?thesis
          by (simp add: dma_loop1.simps [of m count i bytes s] n)
      next
        case (Some u)
        have fin: "(if i + 1 <s count then count else i + 1) = count"
        proof (cases "i + 1 <s count")
          case True
          then show ?thesis by simp
        next
          case False
          with lt s1 have "sint (i + 1) = sint count" by (simp add: word_sless_alt)
          then have "i + 1 = count" by (rule signed_word_eqI)
          with False show ?thesis by simp
        qed
        note ih = "1.IH" [OF True Pair [symmetric] Some, unfolded fin]
        have "dma_loop1 m count i bytes s = dma_loop1 m count (i + 1) (bytes + 1) s'"
          using Pair Some True by (simp add: dma_loop1.simps [of m count i bytes s])
        also note ih
        finally show ?thesis
          using Pair Some True by (simp add: n split: prod.splits option.splits)
      qed
    qed
  qed
qed


lemma count_minus_16:
  "- (2 ^ 31) + 16 \<le> sint (count :: 32 word) \<Longrightarrow> sint (count - 16) = sint count - 16"
  using sint_sub_no_wrap [of count 16] sint_lt [of count] by simp

lemma both_loops_per_byte:
  "- (2 ^ 31) + 16 \<le> sint count \<Longrightarrow>
   both_loops m count i bytes s = Inr (per_byte m bytes (nat (sint count - sint i)) s)"
proof (induction m count i bytes s rule: dma_loop16.induct)
  case (1 m count i bytes s)
  have c16: "sint (count - 16) = sint count - 16"
    by (rule count_minus_16 [OF "1.prems"])
  from "1.prems" have def: "\<not> sint count - 16 < - (2 ^ 31)" by simp
  show ?case
  proof (cases "i \<le>s count - 16")
    case False
    with def show ?thesis
      by (simp add: both_loops_def dma_loop16.simps [of m count i bytes s] dma_loop1_per_byte
          split: prod.splits option.splits)
  next
    case True
    then have le: "sint i + 16 \<le> sint count" by (simp add: word_sle_eq c16)
    have i16: "sint (i + 16) = sint i + 16"
      using sint_add_no_wrap [of i 16] le sint_lt [of count] sint_ge [of i] by simp
    from le have n: "nat (sint count - sint i) = 16 + nat (sint count - sint (i + 16))"
      by (simp add: i16)
    show ?thesis
    proof (cases "unrolled16 m bytes s")
      case (Pair r s')
      show ?thesis
      proof (cases r)
        case None
        with Pair True def show ?thesis
          using unrolled16_per_byte [of m bytes s]
          by (simp add: both_loops_def dma_loop16.simps [of m count i bytes s] n per_byte_add)
      next
        case (Some u)
        from "1.IH" [OF def True Pair [symmetric] Some "1.prems"]
        have "both_loops m count (i + 16) (bytes + 16) s' =
              Inr (per_byte m (bytes + 16) (nat (sint count - sint (i + 16))) s')" .
        with Pair Some True def show ?thesis
          using unrolled16_per_byte [of m bytes s]
          by (simp add: both_loops_def dma_loop16.simps [of m count i bytes s] n per_byte_add)
      qed
    qed
  qed
qed

lemma readDma_both_loops:
  "readDma bytes count s =
     (case both_loops READ_BYTE count 0 bytes (acquireDrq (systick_disable s)) of
        Inl e \<Rightarrow> Inl e
      | Inr (None, s1) \<Rightarrow> Inr (None, s1)
      | Inr (Some _, s1) \<Rightarrow> Inr (Some (), systick_enable (releaseBus s1)))"
  by (simp add: readDma_def both_loops_def split: sum.splits prod.splits option.splits)

lemma sendDma_both_loops:
  "sendDma bytes count s =
     (case both_loops SEND_BYTE count 0 bytes (acquireDrq (acquireDataBus (systick_disable s))) of
        Inl e \<Rightarrow> Inl e
      | Inr (None, s1) \<Rightarrow> Inr (None, s1)
      | Inr (Some _, s1) \<Rightarrow> Inr (Some (), systick_enable (releaseBus s1)))"
  by (simp add: sendDma_def both_loops_def split: sum.splits prod.splits option.splits)

lemma readDma_bytewise:
  "- (2 ^ 31) + 16 \<le> sint count \<Longrightarrow>
   readDma bytes count s = Inr (readBlock_bytewise bytes count s)"
  by (simp add: readDma_both_loops readBlock_bytewise_def both_loops_per_byte
      split: prod.splits option.splits)

lemma sendDma_bytewise:
  "- (2 ^ 31) + 16 \<le> sint count \<Longrightarrow>
   sendDma bytes count s = Inr (writeBlock_bytewise bytes count s)"
  by (simp add: sendDma_both_loops writeBlock_bytewise_def both_loops_per_byte
      split: prod.splits option.splits)

text \<open>
  C5. For every buffer address, every state of the hardware and every byte count (every
  \<open>count\<close> from \<open>- 2 ^ 31 + 16\<close> on, so every count that is not negative), the batched
  loops of \<open>readDma\<close> and \<open>sendDma\<close> are defined and give the same result as the loop
  that handles one byte at a time: the same outcome, the same trace of register accesses
  and the same memory.
\<close>

theorem batched_equals_bytewise:
  "- (2 ^ 31) + 16 \<le> sint count \<Longrightarrow>
   readDma bytes count s = Inr (readBlock_bytewise bytes count s) \<and>
   sendDma bytes count s = Inr (writeBlock_bytewise bytes count s)"
  by (simp add: readDma_bytewise sendDma_bytewise)

theorem batched_equals_bytewise_witness:
  "- (2 ^ 31) + 16 \<le> sint (17 :: 32 word) \<and>
   readDma 0 17 (hw_init [] [] (replicate 17 1) (replicate 17 0xAB00) (\<lambda>_. 0)) =
     Inr (readBlock_bytewise 0 17 (hw_init [] [] (replicate 17 1) (replicate 17 0xAB00) (\<lambda>_. 0))) \<and>
   sendDma 0 17 (hw_init [] [] (replicate 17 1) (replicate 17 0xAB00) (\<lambda>_. 0)) =
     Inr (writeBlock_bytewise 0 17 (hw_init [] [] (replicate 17 1) (replicate 17 0xAB00) (\<lambda>_. 0)))"
  using batched_equals_bytewise
    [of 17 0 "hw_init [] [] (replicate 17 1) (replicate 17 0xAB00) (\<lambda>_. 0)"]
  by simp

subsection \<open>Command capture\<close>

lemma unat_drop13: "unat (drop_bit 13 (port :: 16 word)) = unat port div 8192"
proof -
  have "unat (drop_bit 13 port) = drop_bit 13 (unat port)" by (rule unat_drop_bit_eq)
  also have "\<dots> = unat port div 8192" by (simp add: drop_bit_eq_div)
  finally show ?thesis .
qed

lemma unat_drop13_less: "unat (drop_bit 13 (port :: 16 word)) < 8"
proof -
  have "unat port < 65536" using unsigned_less [of port] by simp
  then show ?thesis unfolding unat_drop13 by simp
qed

lemma device_bit_iff:
  "(device_bit port msk \<noteq> 0) = bit msk (unat (drop_bit 13 port))"
proof -
  let ?d = "unat (drop_bit 13 port)"
  have "(ucast msk AND (2 :: 32 word) ^ ?d = 0) = (\<not> bit (ucast msk :: 32 word) ?d)"
    by (rule and_exp_eq_0_iff_not_bit)
  moreover have "bit (ucast msk :: 32 word) ?d = bit msk ?d"
    using unat_drop13_less [of port] by (simp add: bit_ucast_iff)
  ultimately show ?thesis
    by (simp add: device_bit_def push_bit_of_1 and.commute)
qed

lemma device_id_command_byte:
  "device_id (command_byte v) = unat (drop_bit 13 (ucast v :: 16 word))"
proof -
  let ?p = "ucast v :: 16 word"
  have lt: "unat ?p < 65536" using unsigned_less [of ?p] by simp
  have "unat (drop_bit 8 ?p) = drop_bit 8 (unat ?p)" by (rule unat_drop_bit_eq)
  then have d8: "unat (drop_bit 8 ?p) = unat ?p div 256" by (simp add: drop_bit_eq_div)
  have "unat (ucast (drop_bit 8 ?p) :: 8 word) = take_bit 8 (unat (drop_bit 8 ?p))"
    using unsigned_ucast_eq [of "drop_bit 8 ?p", where ?'c = 8 and ?'a = nat] by simp
  also have "\<dots> = unat ?p div 256"
    unfolding d8 using lt by (simp add: take_bit_eq_mod)
  finally have cb: "unat (command_byte v) = unat ?p div 256"
    by (simp add: command_byte_def)
  have "unat (drop_bit 5 (command_byte v)) = drop_bit 5 (unat (command_byte v))"
    by (rule unat_drop_bit_eq)
  also have "\<dots> = unat ?p div 256 div 32" unfolding cb by (simp add: drop_bit_eq_div)
  also have "\<dots> = unat ?p div 8192" by (simp add: div_mult2_eq [symmetric])
  finally show ?thesis by (simp add: device_id_def unat_drop13)
qed

lemma bit_A1_CS: "bit (A1_MASK OR CS_MASK) n = (n = 6 \<or> n = 7)"
proof -
  have e: "A1_MASK OR CS_MASK = push_bit 6 1 OR push_bit 7 (1 :: 32 word)"
    by (simp add: A1_MASK_def CS_MASK_def)
  show ?thesis
    unfolding e bit_or_iff bit_push_bit_iff bit_1_iff by auto
qed

lemma port_strobe_bits:
  "(ucast (ucast v :: 16 word) :: 32 word) AND (A1_MASK OR CS_MASK) = v AND (A1_MASK OR CS_MASK)"
  by (rule bit_word_eqI) (auto simp: bit_and_iff bit_ucast_iff bit_A1_CS)

lemma is_strobe_port:
  "((ucast (ucast v :: 16 word) :: 32 word) AND (A1_MASK OR CS_MASK) \<noteq> 0) = (\<not> is_strobe v)"
  by (simp add: port_strobe_bits is_strobe_def)


lemma wait_strobe_Some:
  "wait_strobe msk s = (Some port, s') \<Longrightarrow>
   \<exists>pre v. gpiob_idr s = pre @ v # gpiob_idr s' \<and> port = ucast v \<and> accepts msk v \<and>
           list_all (\<lambda>q. \<not> accepts msk q) pre"
proof (induction msk s rule: wait_strobe.induct)
  case (1 msk s)
  let ?M = "A1_MASK OR CS_MASK"
  let ?P = "\<lambda>v. (ucast (ucast v :: 16 word) :: 32 word) AND ?M \<noteq> 0"
  let ?zs = "takeWhile ?P (gpiob_idr s)"
  have zs: "list_all (\<lambda>q. \<not> accepts msk q) ?zs"
    unfolding list_all_iff
  proof
    fix q assume "q \<in> set ?zs"
    then have "?P q" by (rule set_takeWhileD [THEN conjunct2])
    then show "\<not> accepts msk q" by (simp add: accepts_def is_strobe_port)
  qed
  show ?case
  proof (cases "dropWhile ?P (gpiob_idr s)")
    case Nil
    with "1.prems" show ?thesis
      by (simp add: wait_strobe.simps [of msk s] sample_until_clear_closed)
  next
    case (Cons v vs)
    let ?s1 = "s\<lparr>gpiob_idr := vs, trace := RdGpiobIdr v # rev (map RdGpiobIdr ?zs) @ trace s\<rparr>"
    have suc: "sample_until_clear ?M s = (Some (ucast v), ?s1)"
      by (simp add: sample_until_clear_closed Cons)
    from Cons have split: "gpiob_idr s = ?zs @ v # vs" and nv: "\<not> ?P v"
      by (simp_all add: dropWhile_eq_Cons_conv)
    from nv have strobe: "is_strobe v" by (simp add: is_strobe_port)
    have dev: "(device_bit (ucast v) msk \<noteq> 0) = bit msk (device_id (command_byte v))"
      by (simp add: device_bit_iff device_id_command_byte)
    show ?thesis
    proof (cases "device_bit (ucast v) msk = 0")
      case True
      with "1.prems" suc have "wait_strobe msk ?s1 = (Some port, s')"
        by (simp add: wait_strobe.simps [of msk s])
      from "1.IH"(1) [OF suc [symmetric] refl True this]
      obtain pre w where a: "vs = pre @ w # gpiob_idr s'" and b: "port = ucast w"
        and c: "accepts msk w" and d: "list_all (\<lambda>q. \<not> accepts msk q) pre"
        by auto
      from True dev have nacc: "\<not> accepts msk v" by (simp add: accepts_def)
      have "gpiob_idr s = (?zs @ v # pre) @ w # gpiob_idr s'"
        using split a by simp
      moreover have "list_all (\<lambda>q. \<not> accepts msk q) (?zs @ v # pre)"
        using zs nacc d by simp
      ultimately show ?thesis using b c by blast
    next
      case False
      with dev strobe have acc: "accepts msk v" by (simp add: accepts_def)
      show ?thesis
      proof (cases "gpioa_idr ?s1")
        case Nil
        with "1.prems" suc False show ?thesis
          by (simp add: wait_strobe.simps [of msk s] idle_def rd_gpioa_def)
      next
        case (Cons a as)
        with "1.prems" suc False have "port = ucast v" and "gpiob_idr s' = vs"
          by (auto simp: wait_strobe.simps [of msk s] idle_def rd_gpioa_def idle_of_always emit_def)
        with split acc zs show ?thesis by blast
      qed
    qed
  qed
qed

text \<open>
  \<open>waitCommand\<close> does return: on the first strobe for a member of the mask, once CS is
  seen high again.
\<close>

lemma sample_until_clear_gpioa:
  "sample_until_clear m s = (r, s') \<Longrightarrow> gpioa_idr s' = gpioa_idr s"
  unfolding sample_until_clear_closed
  by (cases "dropWhile (\<lambda>v. (ucast (ucast v :: 16 word) :: 32 word) AND m \<noteq> 0) (gpiob_idr s)") auto

lemma wait_strobe_returns:
  "gpiob_idr s = pre @ v # post \<Longrightarrow> list_all (\<lambda>q. \<not> accepts msk q) pre \<Longrightarrow> accepts msk v \<Longrightarrow>
   gpioa_idr s \<noteq> [] \<Longrightarrow>
   \<exists>s'. wait_strobe msk s = (Some (ucast v), s') \<and> gpiob_idr s' = post"
proof (induction msk s arbitrary: pre rule: wait_strobe.induct)
  case (1 msk s)
  let ?M = "A1_MASK OR CS_MASK"
  let ?P = "\<lambda>v. (ucast (ucast v :: 16 word) :: 32 word) AND ?M \<noteq> 0"
  let ?zs = "takeWhile ?P (gpiob_idr s)"
  from "1.prems"(3) have nv: "\<not> ?P v" by (simp add: accepts_def is_strobe_port)
  have dev: "(device_bit (ucast w) msk \<noteq> 0) = bit msk (device_id (command_byte w))" for w
    by (simp add: device_bit_iff device_id_command_byte)
  show ?case
  proof (cases "\<forall>x\<in>set pre. ?P x")
    case True
    with nv "1.prems"(1) have d: "dropWhile ?P (gpiob_idr s) = v # post" by simp
    let ?s1 = "s\<lparr>gpiob_idr := post, trace := RdGpiobIdr v # rev (map RdGpiobIdr ?zs) @ trace s\<rparr>"
    have suc: "sample_until_clear ?M s = (Some (ucast v), ?s1)"
      by (simp add: sample_until_clear_closed d)
    from "1.prems"(3) have nz: "device_bit (ucast v) msk \<noteq> 0"
      by (simp add: dev accepts_def)
    from "1.prems"(4) obtain a as where ga: "gpioa_idr ?s1 = a # as"
      by (cases "gpioa_idr s") auto
    show ?thesis
      using suc nz ga
      by (simp add: wait_strobe.simps [of msk s] idle_def rd_gpioa_def idle_of_always emit_def)
  next
    case False
    then have dp: "dropWhile ?P pre \<noteq> []" by simp
    then obtain w pre' where dw: "dropWhile ?P pre = w # pre'" by (cases "dropWhile ?P pre") auto
    then have nw: "\<not> ?P w" and sub: "set (w # pre') \<subseteq> set pre"
      using hd_dropWhile [OF dp] set_dropWhileD [of _ ?P pre] by auto
    from False have "dropWhile ?P (pre @ v # post) = dropWhile ?P pre @ v # post"
      by (auto simp: dropWhile_append)
    with "1.prems"(1) dw have d: "dropWhile ?P (gpiob_idr s) = w # pre' @ v # post" by simp
    let ?s1 = "s\<lparr>gpiob_idr := pre' @ v # post,
                 trace := RdGpiobIdr w # rev (map RdGpiobIdr ?zs) @ trace s\<rparr>"
    have suc: "sample_until_clear ?M s = (Some (ucast w), ?s1)"
      by (simp add: sample_until_clear_closed d)
    from sub "1.prems"(2) have "\<not> accepts msk w" and rest: "list_all (\<lambda>q. \<not> accepts msk q) pre'"
      by (auto simp: list_all_iff)
    with nw have z: "device_bit (ucast w) msk = 0"
      using dev [of w] by (simp add: accepts_def is_strobe_port)
    have "wait_strobe msk s = wait_strobe msk ?s1"
      using suc z by (simp add: wait_strobe.simps [of msk s])
    moreover have "\<exists>s'. wait_strobe msk ?s1 = (Some (ucast v), s') \<and> gpiob_idr s' = post"
      using "1.prems"(3,4) rest
      by (intro "1.IH"(1) [OF suc [symmetric] refl z, of pre']) simp_all
    ultimately show ?thesis by simp
  qed
qed

lemma waitCommand_returns:
  assumes "gpiob_idr s = pre @ v # post" and "list_all (\<lambda>q. \<not> accepts msk q) pre"
    and "accepts msk v" and "gpioa_idr s \<noteq> []" and "\<exists>x\<in>set post. x AND CS_MASK \<noteq> 0"
  shows "fst (waitCommand msk s) = Some (command_byte v)"
proof -
  have "gpiob_idr (systick_disable s) = pre @ v # post" "gpioa_idr (systick_disable s) \<noteq> []"
    using assms(1,4) by (simp_all add: systick_disable_def emit_def)
  from wait_strobe_returns [OF this(1) assms(2,3) this(2)] obtain s1
    where ws: "wait_strobe msk (systick_disable s) = (Some (ucast v), s1)" and g: "gpiob_idr s1 = post"
    by blast
  from assms(5) g have "dropWhile (\<lambda>v. (v AND CS_MASK \<noteq> 0) = False) (gpiob_idr s1) \<noteq> []"
    by auto
  then obtain c cs where "dropWhile (\<lambda>v. (v AND CS_MASK \<noteq> 0) = False) (gpiob_idr s1) = c # cs"
    by (cases "dropWhile (\<lambda>v. (v AND CS_MASK \<noteq> 0) = False) (gpiob_idr s1)") auto
  then obtain s2 where "wait_while_cs False s1 = (Some (), s2)"
    by (simp add: wait_while_cs_closed)
  with ws show ?thesis
    by (simp add: waitCommand_def command_byte_def)
qed

text \<open>
  C2. When \<open>waitCommand\<close> returns a byte for a device mask, the samples of port B it has
  read split at one sample that shows the strobe pattern and whose device id (the top three
  bits of its command byte) is a member of the mask; the returned byte is the command byte
  of that same sample; and no earlier sample was a strobe for a member of the mask, so a
  strobe for a device outside the mask has not made it return.
\<close>

theorem waitCommand_only_for_member:
  assumes "fst (waitCommand msk s) = Some byte"
  shows "\<exists>pre v post.
           gpiob_idr s = pre @ v # post \<and>
           is_strobe v \<and> bit msk (device_id (command_byte v)) \<and> byte = command_byte v \<and>
           list_all (\<lambda>q. \<not> (is_strobe q \<and> bit msk (device_id (command_byte q)))) pre"
proof -
  from assms obtain port s1 where ws: "wait_strobe msk (systick_disable s) = (Some port, s1)"
    and byte: "byte = ucast (drop_bit 8 port)"
    by (auto simp: waitCommand_def split: prod.splits option.splits)
  from wait_strobe_Some [OF ws]
  obtain pre v where a: "gpiob_idr (systick_disable s) = pre @ v # gpiob_idr s1"
    and b: "port = ucast v" and c: "accepts msk v" and d: "list_all (\<lambda>q. \<not> accepts msk q) pre"
    by auto
  from a have "gpiob_idr s = pre @ v # gpiob_idr s1"
    by (simp add: systick_disable_def emit_def)
  moreover from byte b have "byte = command_byte v" by (simp add: command_byte_def)
  ultimately show ?thesis
    using c d unfolding accepts_def by blast
qed

theorem waitCommand_only_for_member_witness:
  "fst (waitCommand 0x01 (hw_init [0] [0x00C0, 0x2000, 0x1F00, 0x0080] [] [] (\<lambda>_. 0))) = Some 0x1F \<and>
   (\<exists>pre v post.
      gpiob_idr (hw_init [0] [0x00C0, 0x2000, 0x1F00, 0x0080] [] [] (\<lambda>_. 0)) = pre @ v # post \<and>
      is_strobe v \<and> bit (0x01 :: 8 word) (device_id (command_byte v)) \<and> 0x1F = command_byte v \<and>
      list_all (\<lambda>q. \<not> (is_strobe q \<and> bit (0x01 :: 8 word) (device_id (command_byte q)))) pre)"
proof -
  have r: "fst (waitCommand 0x01 (hw_init [0] [0x00C0, 0x2000, 0x1F00, 0x0080] [] [] (\<lambda>_. 0))) = Some 0x1F"
    by (simp add: waitCommand_def run_defs device_bit_def idle_of_always A1_MASK_def CS_MASK_def)
  from r waitCommand_only_for_member [OF r] show ?thesis by blast
qed




subsection \<open>Every transfer releases the bus\<close>

lemma released_after_releaseBus: "bus_released (systick_enable (releaseBus s))"
  by (simp add: bus_released_def data_bus_released_def rq_released_def pin_cfg_def
      systick_enable_def releaseBus_def releaseRq_def releaseDataBus_def emit_def)

lemma rq_released_after_releaseRq: "rq_released (systick_enable (releaseRq s))"
  by (simp add: rq_released_def pin_cfg_def systick_enable_def releaseRq_def emit_def)

lemma wait_while_cs_crh:
  "wait_while_cs lvl s = (r, s') \<Longrightarrow> gpioa_crh s' = gpioa_crh s \<and> gpiob_crh s' = gpiob_crh s"
  unfolding wait_while_cs_closed
  by (cases "dropWhile (\<lambda>v. (v AND CS_MASK \<noteq> 0) = lvl) (gpiob_idr s)") auto

lemma sample_until_clear_crh:
  "sample_until_clear m s = (r, s') \<Longrightarrow> gpioa_crh s' = gpioa_crh s \<and> gpiob_crh s' = gpiob_crh s"
  unfolding sample_until_clear_closed
  by (cases "dropWhile (\<lambda>v. (ucast (ucast v :: 16 word) :: 32 word) AND m \<noteq> 0) (gpiob_idr s)") auto

lemma sendIrq_released: "sendIrq byte s = (Some u, s') \<Longrightarrow> bus_released s'"
  by (auto simp: sendIrq_def released_after_releaseBus split: prod.splits option.splits)

lemma readIrq_released:
  "readIrq s = (Some b, s') \<Longrightarrow> rq_released s' \<and> gpiob_crh s' = gpiob_crh s"
proof -
  assume "readIrq s = (Some b, s')"
  then obtain p s1 where w: "sample_until_clear CS_MASK (pullIrq (systick_disable s)) = (Some p, s1)"
    and s': "s' = systick_enable (releaseRq s1)"
    by (auto simp: readIrq_def split: prod.splits option.splits)
  from sample_until_clear_crh [OF w] have "gpiob_crh s1 = gpiob_crh s"
    by (simp add: pullIrq_def systick_disable_def emit_def)
  then show ?thesis
    unfolding s' using rq_released_after_releaseRq [of s1]
    by (simp add: systick_enable_def releaseRq_def emit_def)
qed

lemma readDma_released: "readDma bytes count s = Inr (Some u, s') \<Longrightarrow> bus_released s'"
  by (auto simp: readDma_def released_after_releaseBus split: sum.splits prod.splits option.splits)

lemma sendDma_released: "sendDma bytes count s = Inr (Some u, s') \<Longrightarrow> bus_released s'"
  by (auto simp: sendDma_def released_after_releaseBus split: sum.splits prod.splits option.splits)

lemma bus_released_cong:
  "gpioa_crh s' = gpioa_crh s \<Longrightarrow> gpiob_crh s' = gpiob_crh s \<Longrightarrow> bus_released s' = bus_released s"
  by (simp add: bus_released_def data_bus_released_def rq_released_def)

lemma readIrq_keeps_released:
  "readIrq s = (Some b, s') \<Longrightarrow> data_bus_released s \<Longrightarrow> bus_released s'"
  by (drule readIrq_released) (simp add: bus_released_def data_bus_released_def)

lemma readIrq_loop_released:
  "readIrq_loop bytes count s = (Some u, s') \<Longrightarrow> bus_released s \<Longrightarrow> bus_released s'"
proof (induction bytes count s rule: readIrq_loop.induct)
  case (1 bytes count s)
  show ?case
  proof (cases "0 <s count")
    case False
    with "1.prems" show ?thesis by (simp add: readIrq_loop.simps [of bytes count s])
  next
    case True
    with "1.prems"(1) obtain b s1 where r: "readIrq s = (Some b, s1)"
      and l: "readIrq_loop (bytes + 1) (count - 1) (s1\<lparr>mem := (mem s1)(bytes := b)\<rparr>) = (Some u, s')"
      by (auto simp: readIrq_loop.simps [of bytes count s] split: prod.splits option.splits)
    from readIrq_keeps_released [OF r] "1.prems"(2) have "bus_released s1"
      by (simp add: bus_released_def)
    then have "bus_released (s1\<lparr>mem := (mem s1)(bytes := b)\<rparr>)"
      by (simp add: bus_released_def data_bus_released_def rq_released_def)
    from "1.IH" [OF True r [symmetric] refl l this] show ?thesis .
  qed
qed

lemma readIrq_buf_released:
  "readIrq_buf bytes count s = (Some u, s') \<Longrightarrow> bus_released s \<Longrightarrow> bus_released s'"
proof -
  assume a: "readIrq_buf bytes count s = (Some u, s')" and b: "bus_released s"
  from a obtain s1 s2 where l: "readIrq_loop bytes count (systick_disable s) = (Some (), s1)"
    and w: "wait_while_cs False s1 = (Some (), s2)" and s': "s' = systick_enable s2"
    by (auto simp: readIrq_buf_def split: prod.splits option.splits)
  from b have "bus_released (systick_disable s)"
    by (simp add: bus_released_def data_bus_released_def rq_released_def systick_disable_def emit_def)
  from readIrq_loop_released [OF l this] have "bus_released s1" .
  with wait_while_cs_crh [OF w] bus_released_cong [of s2 s1] have "bus_released s2"
    by simp
  then show ?thesis
    unfolding s' by (simp add: bus_released_def data_bus_released_def rq_released_def systick_enable_def emit_def)
qed

lemma sendIrq_buf_released:
  "sendIrq_buf bytes count s = (Some u, s') \<Longrightarrow> bus_released s \<Longrightarrow> bus_released s'"
proof (induction bytes count s rule: sendIrq_buf.induct)
  case (1 bytes count s)
  show ?case
  proof (cases "0 <s count")
    case False
    with "1.prems" show ?thesis by (simp add: sendIrq_buf.simps [of bytes count s])
  next
    case True
    with "1.prems"(1) obtain s1 where r: "sendIrq (mem s bytes) s = (Some (), s1)"
      and l: "sendIrq_buf (bytes + 1) (count - 1) s1 = (Some u, s')"
      by (auto simp: sendIrq_buf.simps [of bytes count s] split: prod.splits option.splits)
    from "1.IH" [OF True r [symmetric] refl l sendIrq_released [OF r]] show ?thesis .
  qed
qed

text \<open>
  C7. Every transfer that returns has released what it acquired. \<open>sendIrq\<close>, \<open>readDma\<close>
  and \<open>sendDma\<close> return with the data-bus pins and the IRQ and DRQ pins configured as
  inputs, whatever the state they started from. \<open>readIrq\<close> acquires the IRQ line only: it
  returns with IRQ and DRQ as inputs and has not touched the direction of the data bus, so
  the whole bus is released on return when the data bus was released at entry. The
  multi-byte forms keep a released bus released.
\<close>

theorem transfers_release_bus:
  "(sendIrq byte s = (Some u, s1) \<longrightarrow> bus_released s1) \<and>
   (readIrq s = (Some b, s2) \<longrightarrow>
      rq_released s2 \<and> gpiob_crh s2 = gpiob_crh s \<and> (data_bus_released s \<longrightarrow> bus_released s2)) \<and>
   (readDma bytes count s = Inr (Some u, s3) \<longrightarrow> bus_released s3) \<and>
   (sendDma bytes count s = Inr (Some u, s4) \<longrightarrow> bus_released s4) \<and>
   (bus_released s \<and> readIrq_buf bytes count s = (Some u, s5) \<longrightarrow> bus_released s5) \<and>
   (bus_released s \<and> sendIrq_buf bytes count s = (Some u, s6) \<longrightarrow> bus_released s6)"
proof (intro conjI impI)
  assume "sendIrq byte s = (Some u, s1)"
  then show "bus_released s1" by (rule sendIrq_released)
next
  assume "readIrq s = (Some b, s2)"
  then show "rq_released s2" by (rule readIrq_released [THEN conjunct1])
next
  assume "readIrq s = (Some b, s2)"
  then show "gpiob_crh s2 = gpiob_crh s" by (rule readIrq_released [THEN conjunct2])
next
  assume "readIrq s = (Some b, s2)" and "data_bus_released s"
  then show "bus_released s2" by (rule readIrq_keeps_released)
next
  assume "readDma bytes count s = Inr (Some u, s3)"
  then show "bus_released s3" by (rule readDma_released)
next
  assume "sendDma bytes count s = Inr (Some u, s4)"
  then show "bus_released s4" by (rule sendDma_released)
next
  assume "bus_released s \<and> readIrq_buf bytes count s = (Some u, s5)"
  then show "bus_released s5" using readIrq_buf_released [of bytes count s u s5] by simp
next
  assume "bus_released s \<and> sendIrq_buf bytes count s = (Some u, s6)"
  then show "bus_released s6" using sendIrq_buf_released [of bytes count s u s6] by simp
qed


theorem transfers_release_bus_witness:
  "fst (sendIrq 0x5A test_hw) = Some () \<and> bus_released (snd (sendIrq 0x5A test_hw)) \<and>
   fst (readIrq test_hw) = Some 0x12 \<and> rq_released (snd (readIrq test_hw)) \<and>
   gpiob_crh (snd (readIrq test_hw)) = gpiob_crh test_hw \<and>
   data_bus_released test_hw \<and> bus_released (snd (readIrq test_hw)) \<and>
   (case readDma 0 1 test_hw of Inl e \<Rightarrow> False | Inr (r, t) \<Rightarrow> r = Some () \<and> bus_released t) \<and>
   (case sendDma 0 1 test_hw of Inl e \<Rightarrow> False | Inr (r, t) \<Rightarrow> r = Some () \<and> bus_released t) \<and>
   bus_released test_hw \<and>
   fst (readIrq_buf 0 1 test_hw) = Some () \<and> bus_released (snd (readIrq_buf 0 1 test_hw)) \<and>
   fst (sendIrq_buf 0 1 test_hw) = Some () \<and> bus_released (snd (sendIrq_buf 0 1 test_hw))"
proof -
  from test_hw_runs(3) obtain t3 where r3: "readDma 0 1 test_hw = Inr (Some (), t3)" by blast
  from test_hw_runs(4) obtain t4 where r4: "sendDma 0 1 test_hw = Inr (Some (), t4)" by blast
  show ?thesis
    using transfers_release_bus [of "0x5A" test_hw "()" "snd (sendIrq 0x5A test_hw)"
        "0x12" "snd (readIrq test_hw)" 0 1 t3 t4
        "snd (readIrq_buf 0 1 test_hw)" "snd (sendIrq_buf 0 1 test_hw)"]
      test_hw_runs(1,2,5,6) test_hw_released r3 r4
    by (simp add: prod_eq_iff bus_released_def)
qed


subsection \<open>Systick during the transfers\<close>

lemma quietI:
  "systick s' = systick s \<Longrightarrow> trace s' = evs @ trace s \<Longrightarrow> list_all (\<lambda>e. \<not> is_systick e) evs \<Longrightarrow>
   quiet s s'"
  unfolding quiet_def by blast

lemma quiet_refl: "quiet s s"
  by (rule quietI [of s s "[]"]) simp_all

lemma quiet_trans: "quiet a b \<Longrightarrow> quiet b c \<Longrightarrow> quiet a c"
proof -
  assume "quiet a b" and "quiet b c"
  then obtain e1 e2 where "systick b = systick a" "trace b = e1 @ trace a"
    "list_all (\<lambda>e. \<not> is_systick e) e1" "systick c = systick b" "trace c = e2 @ trace b"
    "list_all (\<lambda>e. \<not> is_systick e) e2"
    unfolding quiet_def by blast
  then show ?thesis
    by (intro quietI [of c a "e2 @ e1"]) simp_all
qed

lemma quiet_emit: "\<not> is_systick e \<Longrightarrow> quiet s t \<Longrightarrow> quiet s (emit e t)"
  unfolding quiet_def emit_def by auto

lemma quiet_upds:
  "quiet s t \<Longrightarrow> quiet s (t\<lparr>gpioa_crh := a\<rparr>)"
  "quiet s t \<Longrightarrow> quiet s (t\<lparr>gpiob_crh := b\<rparr>)"
  "quiet s t \<Longrightarrow> quiet s (t\<lparr>gpiob_odr := c\<rparr>)"
  "quiet s t \<Longrightarrow> quiet s (t\<lparr>mem := m\<rparr>)"
  "quiet s t \<Longrightarrow> quiet s (t\<lparr>tim_ccr1 := d\<rparr>)"
  unfolding quiet_def by simp_all

lemma quiet_prims:
  "quiet s (pullIrq s)" "quiet s (releaseRq s)" "quiet s (releaseDataBus s)"
  "quiet s (acquireDataBus s)" "quiet s (writeData b s)" "quiet s (wr_cnt v s)"
  "quiet s (acquireDrq s)"
  by (simp_all add: pullIrq_def releaseRq_def releaseDataBus_def acquireDataBus_def writeData_def
      wr_cnt_def acquireDrq_def Let_def quiet_emit quiet_upds quiet_refl)

lemma quiet_releaseBus: "quiet s (releaseBus s)"
  unfolding releaseBus_def by (rule quiet_trans [OF quiet_prims(3) quiet_prims(2)])

lemma no_systick_reads:
  "list_all (\<lambda>e. \<not> is_systick e) (rev (map RdCnt xs))"
  "list_all (\<lambda>e. \<not> is_systick e) (rev (map RdGpiobIdr ys))"
  by (auto simp: list_all_iff)

lemma quiet_cnt:
  "list_all (\<lambda>e. \<not> is_systick e) evs \<Longrightarrow> quiet s (s\<lparr>tim_cnt := x, trace := evs @ trace s\<rparr>)"
  "\<not> is_systick e \<Longrightarrow> list_all (\<lambda>e. \<not> is_systick e) evs \<Longrightarrow>
   quiet s (s\<lparr>tim_cnt := x, trace := e # evs @ trace s\<rparr>)"
  unfolding quiet_def by auto

lemma quiet_gpiob:
  "list_all (\<lambda>e. \<not> is_systick e) evs \<Longrightarrow> quiet s (s\<lparr>gpiob_idr := x, trace := evs @ trace s\<rparr>)"
  "\<not> is_systick e \<Longrightarrow> list_all (\<lambda>e. \<not> is_systick e) evs \<Longrightarrow>
   quiet s (s\<lparr>gpiob_idr := x, trace := e # evs @ trace s\<rparr>)"
  unfolding quiet_def by auto

lemma quiet_wait_tick: "wait_tick s = (r, s') \<Longrightarrow> quiet s s'"
  unfolding wait_tick_closed
  by (cases "dropWhile (\<lambda>c. c = 0) (tim_cnt s)") (auto intro!: quiet_cnt no_systick_reads)

lemma quiet_wait_while_cs: "wait_while_cs lvl s = (r, s') \<Longrightarrow> quiet s s'"
  unfolding wait_while_cs_closed
  by (cases "dropWhile (\<lambda>v. (v AND CS_MASK \<noteq> 0) = lvl) (gpiob_idr s)")
     (auto intro!: quiet_gpiob no_systick_reads)

lemma quiet_sample_until_clear: "sample_until_clear m s = (r, s') \<Longrightarrow> quiet s s'"
  unfolding sample_until_clear_closed
  by (cases "dropWhile (\<lambda>v. (ucast (ucast v :: 16 word) :: 32 word) AND m \<noteq> 0) (gpiob_idr s)")
     (auto intro!: quiet_gpiob no_systick_reads)

lemma quiet_rd_ccr1: "rd_ccr1 s = (r, s') \<Longrightarrow> quiet s s'"
  by (cases "tim_ccr1 s") (auto simp: rd_ccr1_def quiet_refl quiet_emit quiet_upds)

lemma quiet_acsi_byte: "acsi_byte m bytes b s = (r, s') \<Longrightarrow> quiet s s'"
proof (cases m)
  case READ_BYTE
  assume a: "acsi_byte m bytes b s = (r, s')"
  obtain r1 s1 where w: "wait_tick (wr_cnt 0 s) = (r1, s1)" by (cases "wait_tick (wr_cnt 0 s)")
  have q1: "quiet s s1"
    by (rule quiet_trans [OF quiet_prims(6) quiet_wait_tick [OF w]])
  show ?thesis
  proof (cases r1)
    case None
    with a READ_BYTE w q1 show ?thesis by (simp add: acsi_byte_def ACSI_READ_BYTE_def)
  next
    case (Some u)
    obtain r2 s2 where c: "rd_ccr1 s1 = (r2, s2)" by (cases "rd_ccr1 s1")
    have q2: "quiet s s2" by (rule quiet_trans [OF q1 quiet_rd_ccr1 [OF c]])
    from a READ_BYTE w Some c q2 show ?thesis
      by (cases r2) (auto simp: acsi_byte_def ACSI_READ_BYTE_def quiet_upds)
  qed
next
  case SEND_BYTE
  assume "acsi_byte m bytes b s = (r, s')"
  with SEND_BYTE have w: "wait_tick (wr_cnt 0 (writeData (mem s (bytes + b)) s)) = (r, s')"
    by (simp add: acsi_byte_def ACSI_SEND_BYTE_def)
  show ?thesis
    by (rule quiet_trans [OF quiet_trans [OF quiet_prims(5) quiet_prims(6)] quiet_wait_tick [OF w]])
qed

lemma quiet_run_bytes: "run_bytes m bytes bs s = (r, s') \<Longrightarrow> quiet s s'"
proof (induction bs arbitrary: s)
  case Nil
  then show ?case by (simp add: quiet_refl)
next
  case (Cons b bs)
  obtain r1 s1 where a: "acsi_byte m bytes b s = (r1, s1)" by (cases "acsi_byte m bytes b s")
  show ?case
  proof (cases r1)
    case None
    with Cons.prems a quiet_acsi_byte [OF a] show ?thesis by simp
  next
    case (Some u)
    with Cons.prems a have "run_bytes m bytes bs s1 = (r, s')" by simp
    from quiet_trans [OF quiet_acsi_byte [OF a] Cons.IH [OF this]] show ?thesis .
  qed
qed

lemma quiet_dma_loop16: "dma_loop16 m count i bytes s = Inr (r, s') \<Longrightarrow> quiet s s'"
proof (induction m count i bytes s rule: dma_loop16.induct)
  case (1 m count i bytes s)
  from "1.prems" have def: "\<not> sint count - 16 < - (2 ^ 31)"
    by (auto simp: dma_loop16.simps [of m count i bytes s] split: if_splits)
  show ?case
  proof (cases "i \<le>s count - 16")
    case False
    with "1.prems" def show ?thesis
      by (simp add: dma_loop16.simps [of m count i bytes s] quiet_refl)
  next
    case True
    obtain r1 s1 where a: "unrolled16 m bytes s = (r1, s1)" by (cases "unrolled16 m bytes s")
    then have q: "quiet s s1" unfolding unrolled16_def by (rule quiet_run_bytes)
    show ?thesis
    proof (cases r1)
      case None
      with "1.prems" a True q def show ?thesis
        by (simp add: dma_loop16.simps [of m count i bytes s])
    next
      case (Some u)
      with "1.prems" a True def have "dma_loop16 m count (i + 16) (bytes + 16) s1 = Inr (r, s')"
        by (simp add: dma_loop16.simps [of m count i bytes s])
      from quiet_trans [OF q "1.IH" [OF def True a [symmetric] Some this]] show ?thesis .
    qed
  qed
qed

lemma quiet_dma_loop1: "dma_loop1 m count i bytes s = (r, s') \<Longrightarrow> quiet s s'"
proof (induction m count i bytes s rule: dma_loop1.induct)
  case (1 m count i bytes s)
  show ?case
  proof (cases "i <s count")
    case False
    with "1.prems" show ?thesis
      by (simp add: dma_loop1.simps [of m count i bytes s] quiet_refl)
  next
    case True
    obtain r1 s1 where a: "acsi_byte m bytes 0 s = (r1, s1)" by (cases "acsi_byte m bytes 0 s")
    then have q: "quiet s s1" by (rule quiet_acsi_byte)
    show ?thesis
    proof (cases r1)
      case None
      with "1.prems" a True q show ?thesis
        by (simp add: dma_loop1.simps [of m count i bytes s])
    next
      case (Some u)
      with "1.prems" a True have "dma_loop1 m count (i + 1) (bytes + 1) s1 = (r, s')"
        by (simp add: dma_loop1.simps [of m count i bytes s])
      from quiet_trans [OF q "1.IH" [OF True a [symmetric] Some this]] show ?thesis .
    qed
  qed
qed


lemma held_pending:
  assumes "quiet (systick_disable s) t"
  shows "systick_held False s t"
proof -
  from assms obtain evs where st: "\<not> systick t"
    and tr: "trace t = evs @ SystickDisable # trace s"
    and ev: "list_all (\<lambda>e. \<not> is_systick e) evs"
    unfolding quiet_def systick_disable_def emit_def by auto
  have "new_events s t = SystickDisable # rev evs"
    by (simp add: new_events_def tr)
  with st ev show ?thesis
    by (simp add: systick_held_def pending_def)
qed

lemma held_returned:
  assumes "quiet (systick_disable s) t"
  shows "systick_held True s (systick_enable t)"
proof -
  from assms obtain evs where tr: "trace t = evs @ SystickDisable # trace s"
    and ev: "list_all (\<lambda>e. \<not> is_systick e) evs"
    unfolding quiet_def systick_disable_def emit_def by auto
  have "new_events s (systick_enable t) = SystickDisable # rev evs @ [SystickEnable]"
    by (simp add: new_events_def systick_enable_def emit_def tr)
  with ev show ?thesis
    by (simp add: systick_held_def bracketed_def systick_enable_def emit_def)
qed

lemma readIrq_held: "systick_held (fst (readIrq s) \<noteq> None) s (snd (readIrq s))"
proof -
  obtain r1 s1 where w: "sample_until_clear CS_MASK (pullIrq (systick_disable s)) = (r1, s1)"
    by (cases "sample_until_clear CS_MASK (pullIrq (systick_disable s))")
  have q: "quiet (systick_disable s) s1"
    by (rule quiet_trans [OF quiet_prims(1) quiet_sample_until_clear [OF w]])
  show ?thesis
  proof (cases r1)
    case None
    with w held_pending [OF q] show ?thesis by (simp add: readIrq_def)
  next
    case (Some b)
    with w held_returned [OF quiet_trans [OF q quiet_prims(2)]] show ?thesis
      by (simp add: readIrq_def)
  qed
qed

lemma sendIrq_held: "systick_held (fst (sendIrq byte s) \<noteq> None) s (snd (sendIrq byte s))"
proof -
  let ?s0 = "pullIrq (writeData byte (acquireDataBus (systick_disable s)))"
  have q0: "quiet (systick_disable s) ?s0"
    by (rule quiet_trans [OF quiet_trans [OF quiet_prims(4) quiet_prims(5)] quiet_prims(1)])
  obtain r1 s1 where w1: "wait_while_cs True ?s0 = (r1, s1)" by (cases "wait_while_cs True ?s0")
  have q1: "quiet (systick_disable s) s1"
    by (rule quiet_trans [OF q0 quiet_wait_while_cs [OF w1]])
  show ?thesis
  proof (cases r1)
    case None
    with w1 held_pending [OF q1] show ?thesis by (simp add: sendIrq_def)
  next
    case (Some u)
    obtain r2 s2 where w2: "wait_while_cs False s1 = (r2, s2)" by (cases "wait_while_cs False s1")
    have q2: "quiet (systick_disable s) s2"
      by (rule quiet_trans [OF q1 quiet_wait_while_cs [OF w2]])
    show ?thesis
    proof (cases r2)
      case None
      with w1 w2 Some held_pending [OF q2] show ?thesis by (simp add: sendIrq_def)
    next
      case (Some v)
      with w1 w2 \<open>r1 = Some u\<close> held_returned [OF quiet_trans [OF q2 quiet_releaseBus]]
      show ?thesis by (simp add: sendIrq_def)
    qed
  qed
qed

lemma dma_held:
  assumes q0: "quiet (systick_disable s) s0"
    and def: "op =
       (case dma_loop16 m count 0 bytes s0 of
          Inl e \<Rightarrow> Inl e
        | Inr (None, s1) \<Rightarrow> Inr (None, s1)
        | Inr (Some (i, bytes'), s1) \<Rightarrow>
            (case dma_loop1 m count i bytes' s1 of
               (None, s2) \<Rightarrow> Inr (None, s2)
             | (Some _, s2) \<Rightarrow> Inr (Some (), systick_enable (releaseBus s2))))"
    and res: "op = Inr (r, s')"
  shows "systick_held (r \<noteq> None) s s'"
proof (cases "dma_loop16 m count 0 bytes s0")
  case (Inl e)
  with def res show ?thesis by simp
next
  case (Inr p)
  obtain r1 s1 where p: "p = (r1, s1)" by (cases p)
  with Inr have l16: "dma_loop16 m count 0 bytes s0 = Inr (r1, s1)" by simp
  have q1: "quiet (systick_disable s) s1"
    by (rule quiet_trans [OF q0 quiet_dma_loop16 [OF l16]])
  show ?thesis
  proof (cases r1)
    case None
    with l16 def res have "r = None" "s' = s1" by simp_all
    with held_pending [OF q1] show ?thesis by simp
  next
    case (Some ib)
    obtain i b where ib: "ib = (i, b)" by (cases ib)
    obtain r2 s2 where l1: "dma_loop1 m count i b s1 = (r2, s2)"
      by (cases "dma_loop1 m count i b s1")
    have q2: "quiet (systick_disable s) s2"
      by (rule quiet_trans [OF q1 quiet_dma_loop1 [OF l1]])
    show ?thesis
    proof (cases r2)
      case None
      with l16 l1 Some ib def res have "r = None" "s' = s2" by simp_all
      with held_pending [OF q2] show ?thesis by simp
    next
      case (Some v)
      with l16 l1 \<open>r1 = Some ib\<close> ib def res
      have "r = Some ()" "s' = systick_enable (releaseBus s2)" by simp_all
      with held_returned [OF quiet_trans [OF q2 quiet_releaseBus]] show ?thesis by simp
    qed
  qed
qed

lemma readDma_held:
  assumes "readDma bytes count s = Inr (r, s')"
  shows "systick_held (r \<noteq> None) s s'"
  by (rule dma_held [OF quiet_prims(7) readDma_def assms])

lemma sendDma_held:
  assumes "sendDma bytes count s = Inr (r, s')"
  shows "systick_held (r \<noteq> None) s s'"
  by (rule dma_held [OF quiet_trans [OF quiet_prims(4) quiet_prims(7)] sendDma_def assms])

lemma extendsI: "trace s' = evs @ trace s \<Longrightarrow> extends s s'"
  unfolding extends_def by blast

lemma extends_refl: "extends s s"
  by (rule extendsI [of _ "[]"]) simp

lemma extends_trans: "extends a b \<Longrightarrow> extends b c \<Longrightarrow> extends a c"
  unfolding extends_def by auto

lemma quiet_extends: "quiet s s' \<Longrightarrow> extends s s'"
  unfolding quiet_def extends_def by blast

lemma extends_systick: "extends s (systick_disable s)" "extends s (systick_enable s)"
  by (rule extendsI [of _ "[_]"]; simp add: systick_disable_def systick_enable_def emit_def)+

lemma extends_mem: "extends s t \<Longrightarrow> extends s (t\<lparr>mem := m\<rparr>)"
  unfolding extends_def by simp

lemma new_events_extends:
  "trace s' = evs @ trace s \<Longrightarrow> new_events s s' = rev evs"
  by (simp add: new_events_def)

lemma new_events_append:
  assumes "extends a b" and "extends b c"
  shows "new_events a c = new_events a b @ new_events b c"
proof -
  from assms obtain e1 e2 where "trace b = e1 @ trace a" "trace c = e2 @ trace b"
    unfolding extends_def by blast
  then show ?thesis by (simp add: new_events_def)
qed

lemma reads_onlyI:
  "mem s' = mem s \<Longrightarrow> trace s' = evs @ trace s \<Longrightarrow> list_all is_read evs \<Longrightarrow> reads_only s s'"
  unfolding reads_only_def by blast

lemma reads_of_lists:
  "list_all is_read (rev (map RdCnt xs))" "list_all is_read (rev (map RdGpiobIdr ys))"
  by (auto simp: list_all_iff)

lemma reads_only_cnt:
  "list_all is_read evs \<Longrightarrow> reads_only s (s\<lparr>tim_cnt := x, trace := evs @ trace s\<rparr>)"
  "is_read e \<Longrightarrow> list_all is_read evs \<Longrightarrow>
   reads_only s (s\<lparr>tim_cnt := x, trace := e # evs @ trace s\<rparr>)"
  unfolding reads_only_def by auto

lemma reads_only_gpiob:
  "list_all is_read evs \<Longrightarrow> reads_only s (s\<lparr>gpiob_idr := x, trace := evs @ trace s\<rparr>)"
  "is_read e \<Longrightarrow> list_all is_read evs \<Longrightarrow>
   reads_only s (s\<lparr>gpiob_idr := x, trace := e # evs @ trace s\<rparr>)"
  unfolding reads_only_def by auto

lemma reads_only_wait_tick: "wait_tick s = (r, s') \<Longrightarrow> reads_only s s'"
  unfolding wait_tick_closed
  by (cases "dropWhile (\<lambda>c. c = 0) (tim_cnt s)") (auto intro!: reads_only_cnt reads_of_lists)

lemma reads_only_wait_while_cs: "wait_while_cs lvl s = (r, s') \<Longrightarrow> reads_only s s'"
  unfolding wait_while_cs_closed
  by (cases "dropWhile (\<lambda>v. (v AND CS_MASK \<noteq> 0) = lvl) (gpiob_idr s)")
     (auto intro!: reads_only_gpiob reads_of_lists)

lemma odr_writes_append: "odr_writes (xs @ ys) = odr_writes xs @ odr_writes ys"
  by (induction xs rule: odr_writes.induct) simp_all

lemma odr_writes_reads: "list_all is_read evs \<Longrightarrow> odr_writes evs = []"
  by (induction evs rule: odr_writes.induct) simp_all

lemma sendIrq_run:
  assumes "sendIrq byte s = (Some u, s')"
  shows "extends s s' \<and> mem s' = mem s \<and> bracketed (new_events s s') \<and> systick s' \<and>
         odr_writes (new_events s s') = [push_bit 8 (ucast byte)]"
proof -
  let ?v = "push_bit 8 (ucast byte) :: 32 word"
  let ?s0 = "pullIrq (writeData byte (acquireDataBus (systick_disable s)))"
  let ?e0 = "[WrGpioaCrh 0x44444BB3, WrGpiobOdr ?v, WrGpiobCrh 0x33333333, SystickDisable]"
  have s0: "trace ?s0 = ?e0 @ trace s" "mem ?s0 = mem s"
    by (simp_all add: pullIrq_def writeData_def acquireDataBus_def systick_disable_def emit_def Let_def)
  from assms obtain s1 s2 where w1: "wait_while_cs True ?s0 = (Some (), s1)"
    and w2: "wait_while_cs False s1 = (Some (), s2)" and s': "s' = systick_enable (releaseBus s2)"
    by (auto simp: sendIrq_def split: prod.splits option.splits)
  from reads_only_wait_while_cs [OF w1] obtain e1
    where t1: "trace s1 = e1 @ trace ?s0" and r1: "list_all is_read e1" and m1: "mem s1 = mem ?s0"
    unfolding reads_only_def by blast
  from reads_only_wait_while_cs [OF w2] obtain e2
    where t2: "trace s2 = e2 @ trace s1" and r2: "list_all is_read e2" and m2: "mem s2 = mem s1"
    unfolding reads_only_def by blast
  let ?e3 = "[SystickEnable, WrGpioaCrh 0x44444BB4, WrGpiobCrh 0x44444444]"
  have tr: "trace s' = (?e3 @ e2 @ e1 @ ?e0) @ trace s"
    by (simp add: s' systick_enable_def releaseBus_def releaseRq_def releaseDataBus_def emit_def
        t2 t1 s0(1))
  have ne: "new_events s s' = rev (?e3 @ e2 @ e1 @ ?e0)"
    by (rule new_events_extends [OF tr])
  have "odr_writes (new_events s s') = [?v]"
    unfolding ne using r1 r2
    by (simp add: odr_writes_append odr_writes_reads)
  moreover have "mem s' = mem s"
    by (simp add: s' systick_enable_def releaseBus_def releaseRq_def releaseDataBus_def emit_def
        m2 m1 s0(2))
  moreover have "bracketed (new_events s s') \<and> systick s'"
    using sendIrq_held [of byte s] assms by (simp add: systick_held_def)
  ultimately show ?thesis using extendsI [OF tr] by simp
qed

lemma sendIrq_buf_runs:
  "sendIrq_buf bytes count s = (Some u, s') \<Longrightarrow>
   extends s s' \<and> mem s' = mem s \<and> (0 <s count \<longrightarrow> systick s') \<and>
   (\<exists>segs. new_events s s' = concat segs \<and> length segs = nat (sint count) \<and>
           list_all bracketed segs \<and>
           map odr_writes segs =
             map (\<lambda>k. [push_bit 8 (ucast (mem s (bytes + k)))]) [0..<nat (sint count)])"
proof (induction bytes count s rule: sendIrq_buf.induct)
  case (1 bytes count s)
  show ?case
  proof (cases "0 <s count")
    case False
    then have "nat (sint count) = 0" by (simp add: word_sless_alt)
    with False "1.prems" show ?thesis
      by (simp add: sendIrq_buf.simps [of bytes count s] extends_refl new_events_def)
  next
    case True
    then have pos: "0 < sint count" by (simp add: word_sless_alt)
    with "1.prems" True obtain s1 where r: "sendIrq (mem s bytes) s = (Some (), s1)"
      and l: "sendIrq_buf (bytes + 1) (count - 1) s1 = (Some u, s')"
      by (auto simp: sendIrq_buf.simps [of bytes count s] split: prod.splits option.splits)
    from sendIrq_run [OF r] have e1: "extends s s1" and m1: "mem s1 = mem s"
      and b1: "bracketed (new_events s s1)" and sy1: "systick s1"
      and w1: "odr_writes (new_events s s1) = [push_bit 8 (ucast (mem s bytes))]"
      by simp_all
    from "1.IH" [OF True r [symmetric] refl l] obtain segs
      where e2: "extends s1 s'" and m2: "mem s' = mem s1"
        and sy2: "0 <s count - 1 \<longrightarrow> systick s'"
        and c: "new_events s1 s' = concat segs" and len: "length segs = nat (sint (count - 1))"
        and br: "list_all bracketed segs"
        and w: "map odr_writes segs =
                  map (\<lambda>k. [push_bit 8 (ucast (mem s1 (bytes + 1 + k)))]) [0..<nat (sint (count - 1))]"
      by blast
    have n: "nat (sint count) = Suc (nat (sint (count - 1)))"
      using sint_pred [OF pos] pos by simp
    have l0: "[0..<Suc (nat (sint (count - 1)))] = 0 # map Suc [0..<nat (sint (count - 1))]"
      by (simp add: upt_rec [of 0 "Suc _"] map_Suc_upt del: upt_Suc)
    have sy: "systick s'"
    proof (cases "0 <s count - 1")
      case True
      with sy2 show ?thesis by simp
    next
      case False
      with l sy1 show ?thesis by (simp add: sendIrq_buf.simps [of _ "count - 1" s1])
    qed
    have "new_events s s' = concat (new_events s s1 # segs)"
      using new_events_append [OF e1 e2] c by simp
    moreover have "length (new_events s s1 # segs) = nat (sint count)"
      using len n by simp
    moreover have "list_all bracketed (new_events s s1 # segs)"
      using b1 br by simp
    moreover have "map odr_writes (new_events s s1 # segs) =
        map (\<lambda>k. [push_bit 8 (ucast (mem s (bytes + k)))]) [0..<nat (sint count)]"
      unfolding n l0 using w w1 m1 by (simp add: comp_def)
    ultimately have "\<exists>segs. new_events s s' = concat segs \<and> length segs = nat (sint count) \<and>
        list_all bracketed segs \<and>
        map odr_writes segs =
          map (\<lambda>k. [push_bit 8 (ucast (mem s (bytes + k)))]) [0..<nat (sint count)]"
      by (intro exI [of _ "new_events s s1 # segs"] conjI)
    then show ?thesis
      using extends_trans [OF e1 e2] m1 m2 sy by simp
  qed
qed

lemma readIrq_run:
  assumes "readIrq s = (Some b, s')"
  shows "extends s s' \<and> systick s'"
proof -
  from assms obtain p s1 where w: "sample_until_clear CS_MASK (pullIrq (systick_disable s)) = (Some p, s1)"
    and s': "s' = systick_enable (releaseRq s1)"
    by (auto simp: readIrq_def split: prod.splits option.splits)
  have "extends s s1"
    by (rule extends_trans [OF extends_systick(1)
          quiet_extends [OF quiet_trans [OF quiet_prims(1) quiet_sample_until_clear [OF w]]]])
  then have "extends s s'"
    unfolding s'
    by (rule extends_trans [OF _ extends_trans [OF quiet_extends [OF quiet_prims(2)] extends_systick(2)]])
  then show ?thesis by (simp add: s' systick_enable_def emit_def)
qed

lemma readIrq_loop_extends:
  "readIrq_loop bytes count s = (Some u, s') \<Longrightarrow> extends s s'"
proof (induction bytes count s rule: readIrq_loop.induct)
  case (1 bytes count s)
  show ?case
  proof (cases "0 <s count")
    case False
    with "1.prems" show ?thesis
      by (simp add: readIrq_loop.simps [of bytes count s] extends_refl)
  next
    case True
    with "1.prems" obtain b s1 where r: "readIrq s = (Some b, s1)"
      and l: "readIrq_loop (bytes + 1) (count - 1) (s1\<lparr>mem := (mem s1)(bytes := b)\<rparr>) = (Some u, s')"
      by (auto simp: readIrq_loop.simps [of bytes count s] split: prod.splits option.splits)
    from readIrq_run [OF r] have "extends s (s1\<lparr>mem := (mem s1)(bytes := b)\<rparr>)"
      by (simp add: extends_mem)
    from extends_trans [OF this "1.IH" [OF True r [symmetric] refl l]] show ?thesis .
  qed
qed

lemma readIrq_buf_ends:
  assumes "readIrq_buf bytes count s = (Some u, s')"
  shows "systick s' \<and> new_events s s' \<noteq> [] \<and> hd (new_events s s') = SystickDisable \<and>
         last (new_events s s') = SystickEnable"
proof -
  from assms obtain s1 s2 where l: "readIrq_loop bytes count (systick_disable s) = (Some (), s1)"
    and w: "wait_while_cs False s1 = (Some (), s2)" and s': "s' = systick_enable s2"
    by (auto simp: readIrq_buf_def split: prod.splits option.splits)
  from extends_trans [OF readIrq_loop_extends [OF l] quiet_extends [OF quiet_wait_while_cs [OF w]]]
  obtain evs where "trace s2 = evs @ trace (systick_disable s)"
    unfolding extends_def by blast
  then have "trace s' = (SystickEnable # evs @ [SystickDisable]) @ trace s"
    by (simp add: s' systick_enable_def systick_disable_def emit_def)
  from new_events_extends [OF this]
  have "new_events s s' = SystickDisable # rev evs @ [SystickEnable]" by simp
  then show ?thesis by (simp add: s' systick_enable_def emit_def)
qed

text \<open>
  C4. A multi-byte \<open>sendIrq\<close> of two bytes switches systick on again after the first
  byte and off again before the register accesses of the second: it has no systick
  handling of its own, and the single-byte operation it calls for each byte re-enables
  systick at its end.
\<close>

theorem systick_on_between_bytes:
  "fst (sendIrq_buf 0 2 (hw_init [] [0x80, 0x00, 0x80, 0x80, 0x00, 0x80] [] [] (\<lambda>_. 0x5A))) = Some () \<and>
   filter is_systick
     (new_events (hw_init [] [0x80, 0x00, 0x80, 0x80, 0x00, 0x80] [] [] (\<lambda>_. 0x5A))
        (snd (sendIrq_buf 0 2 (hw_init [] [0x80, 0x00, 0x80, 0x80, 0x00, 0x80] [] [] (\<lambda>_. 0x5A))))) =
     [SystickDisable, SystickEnable, SystickDisable, SystickEnable] \<and>
   \<not> bracketed
     (new_events (hw_init [] [0x80, 0x00, 0x80, 0x80, 0x00, 0x80] [] [] (\<lambda>_. 0x5A))
        (snd (sendIrq_buf 0 2 (hw_init [] [0x80, 0x00, 0x80, 0x80, 0x00, 0x80] [] [] (\<lambda>_. 0x5A)))))"
  by (simp add: run_defs irq_defs new_events_def bracketed_def)

text \<open>
  C4, amended. The single-byte \<open>readIrq\<close> and \<open>sendIrq\<close> and the block transfers
  \<open>readDma\<close> and \<open>sendDma\<close> switch systick off before their first register access and do
  not switch it again before they switch it on as their last action; while they wait,
  systick is off. For the block transfers that is once for the whole block. A multi-byte
  \<open>sendIrq\<close> that returns has made one run of register accesses for each of its \<open>count\<close>
  bytes, in order, each run driving its byte on the bus and keeping systick off from its
  first access to its last, with systick on between the runs and on return. A multi-byte
  \<open>readIrq\<close> that returns has switched systick off first and on last.
\<close>

theorem systick_off_during_transfer:
  "systick_held (fst (readIrq s) \<noteq> None) s (snd (readIrq s)) \<and>
   systick_held (fst (sendIrq byte s) \<noteq> None) s (snd (sendIrq byte s)) \<and>
   (readDma bytes count s = Inr (r3, s3) \<longrightarrow> systick_held (r3 \<noteq> None) s s3) \<and>
   (sendDma bytes count s = Inr (r4, s4) \<longrightarrow> systick_held (r4 \<noteq> None) s s4) \<and>
   (readIrq_buf bytes count s = (Some u, s5) \<longrightarrow>
      systick s5 \<and> new_events s s5 \<noteq> [] \<and> hd (new_events s s5) = SystickDisable \<and>
      last (new_events s s5) = SystickEnable) \<and>
   (sendIrq_buf bytes count s = (Some u, s6) \<longrightarrow>
      (0 <s count \<longrightarrow> systick s6) \<and>
      (\<exists>segs. new_events s s6 = concat segs \<and> length segs = nat (sint count) \<and>
              list_all bracketed segs \<and>
              map odr_writes segs =
                map (\<lambda>k. [push_bit 8 (ucast (mem s (bytes + k)))]) [0..<nat (sint count)]))"
  using readIrq_held [of s] sendIrq_held [of byte s] readDma_held [of bytes count s r3 s3]
    sendDma_held [of bytes count s r4 s4] readIrq_buf_ends [of bytes count s u s5]
    sendIrq_buf_runs [of bytes count s u s6]
  by blast


lemma test_hw_mem: "mem test_hw a = 0x5A" "nat (sint (1 :: 32 word)) = 1"
  by (simp_all add: test_hw_def hw_init_def)

theorem systick_off_during_transfer_witness:
  "systick_held True test_hw (snd (readIrq test_hw)) \<and>
   systick_held True test_hw (snd (sendIrq 0x5A test_hw)) \<and>
   (case readDma 0 1 test_hw of
      Inl e \<Rightarrow> False | Inr (r, t) \<Rightarrow> r = Some () \<and> systick_held True test_hw t) \<and>
   (case sendDma 0 1 test_hw of
      Inl e \<Rightarrow> False | Inr (r, t) \<Rightarrow> r = Some () \<and> systick_held True test_hw t) \<and>
   fst (readIrq_buf 0 1 test_hw) = Some () \<and> systick (snd (readIrq_buf 0 1 test_hw)) \<and>
   new_events test_hw (snd (readIrq_buf 0 1 test_hw)) \<noteq> [] \<and>
   hd (new_events test_hw (snd (readIrq_buf 0 1 test_hw))) = SystickDisable \<and>
   last (new_events test_hw (snd (readIrq_buf 0 1 test_hw))) = SystickEnable \<and>
   fst (sendIrq_buf 0 1 test_hw) = Some () \<and> 0 <s (1 :: 32 word) \<and>
   systick (snd (sendIrq_buf 0 1 test_hw)) \<and>
   (\<exists>segs. new_events test_hw (snd (sendIrq_buf 0 1 test_hw)) = concat segs \<and> length segs = 1 \<and>
           list_all bracketed segs \<and> map odr_writes segs = [[0x5A00]])"
proof -
  from test_hw_runs(3) obtain t3 where r3: "readDma 0 1 test_hw = Inr (Some (), t3)" by blast
  from test_hw_runs(4) obtain t4 where r4: "sendDma 0 1 test_hw = Inr (Some (), t4)" by blast
  have pos: "0 <s (1 :: 32 word)" by (simp add: word_sless_alt)
  show ?thesis
    using systick_off_during_transfer [of test_hw "0x5A" 0 1 "Some ()" t3 "Some ()" t4 "()"
        "snd (readIrq_buf 0 1 test_hw)" "snd (sendIrq_buf 0 1 test_hw)"]
      test_hw_runs(1,2,5,6) r3 r4 pos
    by (simp add: prod_eq_iff test_hw_mem)
qed


subsection \<open>Round trip over a loopback connection\<close>

lemma sint_of_nat_32: "n < 2 ^ 31 \<Longrightarrow> sint (of_nat n :: 32 word) = int n"
  by (simp add: signed_of_nat signed_take_bit_int_eq_self)

lemma ticks_Suc:
  assumes "ticks (Suc n) cs"
  shows "\<exists>c rest. dropWhile (\<lambda>c. c = 0) cs = c # rest \<and> ticks n rest \<and> c \<noteq> 0"
proof (cases "dropWhile (\<lambda>c. c = 0) cs")
  case Nil
  with assms show ?thesis by (simp del: dropWhile_eq_Nil_conv)
next
  case (Cons c rest)
  with assms have "ticks n rest" by simp
  moreover from Cons have "c \<noteq> 0" by (simp add: dropWhile_eq_Cons_conv)
  ultimately show ?thesis using Cons by simp
qed

lemma zeros_takeWhile: "\<forall>z\<in>set (takeWhile (\<lambda>c. c = 0) cs). z = (0 :: 16 word)"
  by (auto dest: set_takeWhileD)

lemma wr_zeros: "\<forall>z\<in>set zs. z = 0 \<Longrightarrow> foldl wr_step l (map RdCnt zs) = l"
  by (induction zs arbitrary: l) simp_all

lemma rd_zeros: "\<forall>z\<in>set zs. z = 0 \<Longrightarrow> foldl (rd_step slots) r (map RdCnt zs) = r"
  by (induction zs arbitrary: r) simp_all

lemma wr_walk_byte:
  assumes "wr_ready l" and "\<forall>z\<in>set zs. z = 0" and "c \<noteq> 0"
  shows "wr_ready (foldl wr_step l ([WrGpiobOdr v, WrCnt 0] @ map RdCnt zs @ [RdCnt c]))"
    and "l_done (foldl wr_step l ([WrGpiobOdr v, WrCnt 0] @ map RdCnt zs @ [RdCnt c])) =
           l_done l @ [Some v]"
  using assms by (simp_all add: wr_ready_def wr_zeros)

lemma rd_walk_byte:
  assumes "rd_ready r" and "\<forall>z\<in>set zs. z = 0" and "c \<noteq> 0"
  shows "rd_ready (foldl (rd_step slots) r ([WrCnt 0] @ map RdCnt zs @ [RdCnt c, RdCcr1 v]))"
    and "r_n (foldl (rd_step slots) r ([WrCnt 0] @ map RdCnt zs @ [RdCnt c, RdCcr1 v])) = Suc (r_n r)"
    and "r_ok (foldl (rd_step slots) r ([WrCnt 0] @ map RdCnt zs @ [RdCnt c, RdCcr1 v])) =
           (r_ok r \<and> agrees slots (r_n r) v)"
  using assms by (simp_all add: rd_ready_def rd_zeros)

lemma send_byte_seg:
  assumes "ticks (Suc n) (tim_cnt s)"
  shows "\<exists>s' zs c. acsi_byte SEND_BYTE bytes 0 s = (Some (), s') \<and> ticks n (tim_cnt s') \<and>
           mem s' = mem s \<and>
           trace s' = rev ([WrGpiobOdr (push_bit 8 (ucast (mem s bytes))), WrCnt 0] @
                           map RdCnt zs @ [RdCnt c]) @ trace s \<and>
           (\<forall>z\<in>set zs. z = 0) \<and> c \<noteq> 0"
proof -
  from ticks_Suc [OF assms] obtain c rest
    where d: "dropWhile (\<lambda>c. c = 0) (tim_cnt s) = c # rest" and t: "ticks n rest" and c: "c \<noteq> 0"
    by blast
  let ?v = "push_bit 8 (ucast (mem s bytes)) :: 32 word"
  let ?zs = "takeWhile (\<lambda>c. c = 0) (tim_cnt s)"
  let ?s' = "s\<lparr>gpiob_odr := ?v, tim_cnt := rest,
               trace := rev ([WrGpiobOdr ?v, WrCnt 0] @ map RdCnt ?zs @ [RdCnt c]) @ trace s\<rparr>"
  have "acsi_byte SEND_BYTE bytes 0 s = (Some (), ?s')"
    by (simp add: acsi_byte_def ACSI_SEND_BYTE_def wait_tick_closed wr_cnt_def writeData_def
        emit_def Let_def d rev_map)
  then show ?thesis
    using t c zeros_takeWhile [of "tim_cnt s"]
    by (intro exI [of _ ?s'] exI [of _ ?zs] exI [of _ c]) simp
qed

lemma read_byte_seg:
  assumes "ticks (Suc n) (tim_cnt s)" and "tim_ccr1 s = v # vs"
  shows "\<exists>s' zs c. acsi_byte READ_BYTE bytes 0 s = (Some (), s') \<and> ticks n (tim_cnt s') \<and>
           tim_ccr1 s' = vs \<and> mem s' = (mem s)(bytes := ucast (drop_bit 8 v)) \<and>
           trace s' = rev ([WrCnt 0] @ map RdCnt zs @ [RdCnt c, RdCcr1 v]) @ trace s \<and>
           (\<forall>z\<in>set zs. z = 0) \<and> c \<noteq> 0"
proof -
  from ticks_Suc [OF assms(1)] obtain c rest
    where d: "dropWhile (\<lambda>c. c = 0) (tim_cnt s) = c # rest" and t: "ticks n rest" and c: "c \<noteq> 0"
    by blast
  let ?zs = "takeWhile (\<lambda>c. c = 0) (tim_cnt s)"
  let ?s' = "s\<lparr>mem := (mem s)(bytes := ucast (drop_bit 8 v)), tim_cnt := rest, tim_ccr1 := vs,
               trace := rev ([WrCnt 0] @ map RdCnt ?zs @ [RdCnt c, RdCcr1 v]) @ trace s\<rparr>"
  have "acsi_byte READ_BYTE bytes 0 s = (Some (), ?s')"
    by (simp add: acsi_byte_def ACSI_READ_BYTE_def wait_tick_closed wr_cnt_def rd_ccr1_def
        emit_def d assms(2) rev_map)
  then show ?thesis
    using t c zeros_takeWhile [of "tim_cnt s"]
    by (intro exI [of _ ?s'] exI [of _ ?zs] exI [of _ c]) simp
qed

lemma per_byte_send_walk:
  "ticks n (tim_cnt s) \<Longrightarrow>
   \<exists>s' evs. per_byte SEND_BYTE bytes n s = (Some (), s') \<and> mem s' = mem s \<and>
            trace s' = evs @ trace s \<and>
            (\<forall>l. wr_ready l \<longrightarrow>
                 wr_ready (foldl wr_step l (rev evs)) \<and>
                 l_done (foldl wr_step l (rev evs)) =
                   l_done l @ map (\<lambda>k. Some (push_bit 8 (ucast (mem s (bytes + k))))) [0..<n])"
proof (induction n arbitrary: s bytes)
  case 0
  show ?case by (intro exI [of _ s] exI [of _ "[]"]) simp
next
  case (Suc n)
  from send_byte_seg [OF Suc.prems, of bytes] obtain s1 zs c
    where a: "acsi_byte SEND_BYTE bytes 0 s = (Some (), s1)" and t: "ticks n (tim_cnt s1)"
      and m: "mem s1 = mem s"
      and tr: "trace s1 = rev ([WrGpiobOdr (push_bit 8 (ucast (mem s bytes))), WrCnt 0] @
                               map RdCnt zs @ [RdCnt c]) @ trace s"
      and z: "\<forall>z\<in>set zs. z = 0" and c: "c \<noteq> 0"
    by blast
  let ?seg = "[WrGpiobOdr (push_bit 8 (ucast (mem s bytes))), WrCnt 0] @ map RdCnt zs @ [RdCnt c]"
  from Suc.IH [OF t, of "Suc bytes"] obtain s' e2
    where p: "per_byte SEND_BYTE (Suc bytes) n s1 = (Some (), s')" and m': "mem s' = mem s1"
      and tr': "trace s' = e2 @ trace s1"
      and w: "\<forall>l. wr_ready l \<longrightarrow>
                 wr_ready (foldl wr_step l (rev e2)) \<and>
                 l_done (foldl wr_step l (rev e2)) =
                   l_done l @ map (\<lambda>k. Some (push_bit 8 (ucast (mem s1 (Suc bytes + k))))) [0..<n]"
    by blast
  have l0: "[0..<Suc n] = 0 # map Suc [0..<n]"
    by (simp add: upt_rec [of 0 "Suc n"] map_Suc_upt del: upt_Suc)
  have walk: "wr_ready (foldl wr_step l (rev (e2 @ rev ?seg))) \<and>
      l_done (foldl wr_step l (rev (e2 @ rev ?seg))) =
        l_done l @ map (\<lambda>k. Some (push_bit 8 (ucast (mem s (bytes + k))))) [0..<Suc n]"
    if r: "wr_ready l" for l
  proof -
    define l1 where "l1 = foldl wr_step l ?seg"
    have split: "foldl wr_step l (rev (e2 @ rev ?seg)) = foldl wr_step l1 (rev e2)"
      unfolding l1_def by (simp only: rev_append rev_rev_ident foldl_append)
    from wr_walk_byte [OF r z c] have r1: "wr_ready l1"
      and d1: "l_done l1 = l_done l @ [Some (push_bit 8 (ucast (mem s bytes)))]"
      unfolding l1_def by blast+
    from w r1 have "wr_ready (foldl wr_step l1 (rev e2))"
      and "l_done (foldl wr_step l1 (rev e2)) =
             l_done l1 @ map (\<lambda>k. Some (push_bit 8 (ucast (mem s1 (Suc bytes + k))))) [0..<n]"
      by blast+
    then show ?thesis
      unfolding split l0 by (simp add: d1 m comp_def)
  qed
  have "trace s' = (e2 @ rev ?seg) @ trace s" using tr tr' by simp
  with a p m m' walk show ?case
    by (intro exI [of _ s'] exI [of _ "e2 @ rev ?seg"]) simp
qed

lemma per_byte_read_walk:
  "ticks n (tim_cnt s) \<Longrightarrow> n \<le> length (tim_ccr1 s) \<Longrightarrow>
   \<exists>s' evs. per_byte READ_BYTE bytes n s = (Some (), s') \<and>
        (\<forall>k<n. mem s' (bytes + k) = ucast (drop_bit 8 (tim_ccr1 s ! k))) \<and>
        (\<forall>a<bytes. mem s' a = mem s a) \<and>
        trace s' = evs @ trace s \<and>
        (\<forall>r. rd_ready r \<longrightarrow>
             rd_ready (foldl (rd_step slots) r (rev evs)) \<and>
             r_n (foldl (rd_step slots) r (rev evs)) = r_n r + n \<and>
             r_ok (foldl (rd_step slots) r (rev evs)) =
               (r_ok r \<and> (\<forall>k<n. agrees slots (r_n r + k) (tim_ccr1 s ! k))))"
proof (induction n arbitrary: s bytes)
  case 0
  show ?case by (intro exI [of _ s] exI [of _ "[]"]) simp
next
  case (Suc n)
  from Suc.prems(2) obtain v vs where cc: "tim_ccr1 s = v # vs" and len: "n \<le> length vs"
    by (cases "tim_ccr1 s") auto
  from read_byte_seg [OF Suc.prems(1) cc, of bytes] obtain s1 zs c
    where a: "acsi_byte READ_BYTE bytes 0 s = (Some (), s1)" and t: "ticks n (tim_cnt s1)"
      and c1: "tim_ccr1 s1 = vs" and m: "mem s1 = (mem s)(bytes := ucast (drop_bit 8 v))"
      and tr: "trace s1 = rev ([WrCnt 0] @ map RdCnt zs @ [RdCnt c, RdCcr1 v]) @ trace s"
      and z: "\<forall>z\<in>set zs. z = 0" and c: "c \<noteq> 0"
    by blast
  let ?seg = "[WrCnt 0] @ map RdCnt zs @ [RdCnt c, RdCcr1 v]"
  from len c1 have "n \<le> length (tim_ccr1 s1)" by simp
  from Suc.IH [OF t this, of "Suc bytes"] obtain s' e2
    where p: "per_byte READ_BYTE (Suc bytes) n s1 = (Some (), s')"
      and rb: "\<forall>k<n. mem s' (Suc bytes + k) = ucast (drop_bit 8 (vs ! k))"
      and fr: "\<forall>a<Suc bytes. mem s' a = mem s1 a"
      and tr': "trace s' = e2 @ trace s1"
      and w: "\<forall>r. rd_ready r \<longrightarrow>
             rd_ready (foldl (rd_step slots) r (rev e2)) \<and>
             r_n (foldl (rd_step slots) r (rev e2)) = r_n r + n \<and>
             r_ok (foldl (rd_step slots) r (rev e2)) =
               (r_ok r \<and> (\<forall>k<n. agrees slots (r_n r + k) (vs ! k)))"
    unfolding c1 by blast
  have byte: "mem s' (bytes + k) = ucast (drop_bit 8 (tim_ccr1 s ! k))" if "k < Suc n" for k
  proof (cases k)
    case 0
    with fr m cc show ?thesis by simp
  next
    case (Suc j)
    with that rb cc show ?thesis by simp
  qed
  have frame: "mem s' a = mem s a" if "a < bytes" for a
    using that fr m by simp
  have all_Suc: "(\<forall>k<Suc n. P k) = (P 0 \<and> (\<forall>k<n. P (Suc k)))" for P
    by (auto simp: less_Suc_eq_0_disj)
  have walk: "rd_ready (foldl (rd_step slots) r (rev (e2 @ rev ?seg))) \<and>
      r_n (foldl (rd_step slots) r (rev (e2 @ rev ?seg))) = r_n r + Suc n \<and>
      r_ok (foldl (rd_step slots) r (rev (e2 @ rev ?seg))) =
        (r_ok r \<and> (\<forall>k<Suc n. agrees slots (r_n r + k) (tim_ccr1 s ! k)))"
    if r: "rd_ready r" for r
  proof -
    define r1 where "r1 = foldl (rd_step slots) r ?seg"
    have split: "foldl (rd_step slots) r (rev (e2 @ rev ?seg)) = foldl (rd_step slots) r1 (rev e2)"
      unfolding r1_def by (simp only: rev_append rev_rev_ident foldl_append)
    from rd_walk_byte [OF r z c, of slots v] have r1: "rd_ready r1"
      and n1: "r_n r1 = Suc (r_n r)" and o1: "r_ok r1 = (r_ok r \<and> agrees slots (r_n r) v)"
      unfolding r1_def by blast+
    from w r1 have "rd_ready (foldl (rd_step slots) r1 (rev e2))"
      and "r_n (foldl (rd_step slots) r1 (rev e2)) = r_n r1 + n"
      and "r_ok (foldl (rd_step slots) r1 (rev e2)) =
             (r_ok r1 \<and> (\<forall>k<n. agrees slots (r_n r1 + k) (vs ! k)))"
      by blast+
    then show ?thesis
      unfolding split all_Suc by (simp add: n1 o1 cc)
  qed
  have "trace s' = (e2 @ rev ?seg) @ trace s" using tr tr' by simp
  with a p byte frame walk show ?case
    by (intro exI [of _ s'] exI [of _ "e2 @ rev ?seg"]) simp
qed

lemma loopback_byte:
  "ucast (drop_bit 8 c) = (b :: 8 word)"
  if "drop_bit 8 (c :: 16 word) = drop_bit 8 (ucast (push_bit 8 (ucast b :: 32 word)) :: 16 word)"
proof -
  have "ucast (drop_bit 8 (ucast (push_bit 8 (ucast b :: 32 word)) :: 16 word)) = b"
    by (rule bit_word_eqI) (auto simp: bit_ucast_iff bit_drop_bit_eq bit_push_bit_iff)
  with that show ?thesis by simp
qed

lemma sendDma_sent:
  assumes n: "n < 2 ^ 31" and tk: "ticks n (tim_cnt s)"
  shows "\<exists>s'. sendDma src (of_nat n) s = Inr (Some (), s') \<and>
           sent (line_of s) (new_events s s') =
             map (\<lambda>k. Some (push_bit 8 (ucast (mem s (src + k))))) [0..<n]"
proof -
  let ?s0 = "acquireDrq (acquireDataBus (systick_disable s))"
  let ?e0 = "[WrGpioaCrh 0x4444BBB4, WrGpioaCrh 0x44448BB4, WrCnt 2, WrGpiobCrh 0x33333333,
              SystickDisable]"
  let ?e1 = "[WrGpiobCrh 0x44444444, WrGpioaCrh 0x44444BB4, SystickEnable]"
  have s0: "tim_cnt ?s0 = tim_cnt s" "mem ?s0 = mem s" "trace ?s0 = ?e0 @ trace s"
    by (simp_all add: acquireDrq_def acquireDataBus_def systick_disable_def wr_cnt_def emit_def Let_def)
  have c: "sint (of_nat n :: 32 word) = int n" by (rule sint_of_nat_32 [OF n])
  then have "- (2 ^ 31) + 16 \<le> sint (of_nat n :: 32 word)" by simp
  then have eq: "sendDma src (of_nat n) s = Inr (writeBlock_bytewise src (of_nat n) s)"
    by (rule sendDma_bytewise)
  from tk have "ticks n (tim_cnt ?s0)" unfolding s0 .
  from per_byte_send_walk [OF this, of src] obtain s1 evs
    where p: "per_byte SEND_BYTE src n ?s0 = (Some (), s1)"
      and tr: "trace s1 = evs @ trace ?s0"
      and w: "\<forall>l. wr_ready l \<longrightarrow>
                 wr_ready (foldl wr_step l (rev evs)) \<and>
                 l_done (foldl wr_step l (rev evs)) =
                   l_done l @ map (\<lambda>k. Some (push_bit 8 (ucast (mem ?s0 (src + k))))) [0..<n]"
    by blast
  let ?s' = "systick_enable (releaseBus s1)"
  have res: "writeBlock_bytewise src (of_nat n) s = (Some (), ?s')"
    by (simp add: writeBlock_bytewise_def c p)
  have "trace ?s' = (rev ?e1 @ evs @ ?e0) @ trace s"
    using tr s0(3)
    by (simp add: systick_enable_def releaseBus_def releaseRq_def releaseDataBus_def emit_def)
  from new_events_extends [OF this] have ne: "new_events s ?s' = rev ?e0 @ rev evs @ ?e1"
    by simp
  define l0 where "l0 = foldl wr_step (line_of s) (rev ?e0)"
  have r0: "wr_ready l0" and d0: "l_done l0 = []"
    by (simp_all add: l0_def line_of_def wr_ready_def drq_driven_def data_pins_def pin_cfg_def)
  define l1 where "l1 = foldl wr_step l0 (rev evs)"
  from w r0 have d1: "l_done l1 = map (\<lambda>k. Some (push_bit 8 (ucast (mem s (src + k))))) [0..<n]"
    unfolding l1_def s0 by (simp add: d0)
  have "foldl wr_step (line_of s) (rev ?e0 @ rev evs @ ?e1) = foldl wr_step l1 ?e1"
    unfolding l1_def l0_def by (simp only: foldl_append)
  then have "sent (line_of s) (new_events s ?s') = l_done l1"
    unfolding sent_def ne by simp
  with d1 eq res show ?thesis by simp
qed

lemma readDma_captured:
  assumes n: "n < 2 ^ 31" and tk: "ticks n (tim_cnt t)" and len: "n \<le> length (tim_ccr1 t)"
    and fl: "data_bus_released t"
  shows "\<exists>t'. readDma dst (of_nat n) t = Inr (Some (), t') \<and>
           (\<forall>k<n. mem t' (dst + k) = ucast (drop_bit 8 (tim_ccr1 t ! k))) \<and>
           loopback slots (rline_of t) (new_events t t') =
             (\<forall>k<n. agrees slots k (tim_ccr1 t ! k))"
proof -
  let ?s0 = "acquireDrq (systick_disable t)"
  let ?e0 = "[WrGpioaCrh 0x4444BBB4, WrGpioaCrh 0x44448BB4, WrCnt 2, SystickDisable]"
  let ?e1 = "[WrGpiobCrh 0x44444444, WrGpioaCrh 0x44444BB4, SystickEnable]"
  have s0: "tim_cnt ?s0 = tim_cnt t" "tim_ccr1 ?s0 = tim_ccr1 t" "trace ?s0 = ?e0 @ trace t"
    by (simp_all add: acquireDrq_def systick_disable_def wr_cnt_def emit_def Let_def)
  have c: "sint (of_nat n :: 32 word) = int n" by (rule sint_of_nat_32 [OF n])
  then have "- (2 ^ 31) + 16 \<le> sint (of_nat n :: 32 word)" by simp
  then have eq: "readDma dst (of_nat n) t = Inr (readBlock_bytewise dst (of_nat n) t)"
    by (rule readDma_bytewise)
  from tk len have "ticks n (tim_cnt ?s0)" "n \<le> length (tim_ccr1 ?s0)" unfolding s0 .
  from per_byte_read_walk [OF this, of dst slots] obtain s1 evs
    where p: "per_byte READ_BYTE dst n ?s0 = (Some (), s1)"
      and rb: "\<forall>k<n. mem s1 (dst + k) = ucast (drop_bit 8 (tim_ccr1 ?s0 ! k))"
      and tr: "trace s1 = evs @ trace ?s0"
      and w: "\<forall>r. rd_ready r \<longrightarrow>
             rd_ready (foldl (rd_step slots) r (rev evs)) \<and>
             r_n (foldl (rd_step slots) r (rev evs)) = r_n r + n \<and>
             r_ok (foldl (rd_step slots) r (rev evs)) =
               (r_ok r \<and> (\<forall>k<n. agrees slots (r_n r + k) (tim_ccr1 ?s0 ! k)))"
    by blast
  let ?t' = "systick_enable (releaseBus s1)"
  have res: "readBlock_bytewise dst (of_nat n) t = (Some (), ?t')"
    by (simp add: readBlock_bytewise_def c p)
  have m: "mem ?t' = mem s1"
    by (simp add: systick_enable_def releaseBus_def releaseRq_def releaseDataBus_def emit_def)
  have "trace ?t' = (rev ?e1 @ evs @ ?e0) @ trace t"
    using tr s0(3)
    by (simp add: systick_enable_def releaseBus_def releaseRq_def releaseDataBus_def emit_def)
  from new_events_extends [OF this] have ne: "new_events t ?t' = rev ?e0 @ rev evs @ ?e1"
    by simp
  define r0 where "r0 = foldl (rd_step slots) (rline_of t) (rev ?e0)"
  from fl have "data_pins 4 (gpiob_crh t)"
    by (simp add: data_bus_released_def data_pins_def)
  then have y0: "rd_ready r0" and n0: "r_n r0 = 0" and o0: "r_ok r0"
    by (simp_all add: r0_def rline_of_def rd_ready_def drq_driven_def pin_cfg_def)
  define r1 where "r1 = foldl (rd_step slots) r0 (rev evs)"
  from w y0 have o1: "r_ok r1 = (\<forall>k<n. agrees slots k (tim_ccr1 t ! k))"
    unfolding r1_def s0 by (simp add: n0 o0)
  have "foldl (rd_step slots) (rline_of t) (rev ?e0 @ rev evs @ ?e1) = foldl (rd_step slots) r1 ?e1"
    unfolding r1_def r0_def by (simp only: foldl_append)
  then have "loopback slots (rline_of t) (new_events t ?t') = r_ok r1"
    unfolding loopback_def ne by simp
  with o1 eq res rb m s0(2) show ?thesis by simp
qed

lemma roundtrip_any_length:
  assumes n: "n < 2 ^ 31" and tk: "ticks n (tim_cnt s)" and tk2: "ticks n (tim_cnt t)"
    and len: "n \<le> length (tim_ccr1 t)" and fl: "data_bus_released t"
    and lb: "loopback (sent (line_of s) (new_events s (dma_final s (sendDma src (of_nat n) s))))
               (rline_of t) (new_events t (dma_final t (readDma dst (of_nat n) t)))"
  shows "dma_returned (sendDma src (of_nat n) s) \<and>
         dma_returned (readDma dst (of_nat n) t) \<and>
         map (mem (dma_final t (readDma dst (of_nat n) t))) [dst..<dst + n] =
           map (mem s) [src..<src + n]"
proof -
  let ?slots = "map (\<lambda>k. Some (push_bit 8 (ucast (mem s (src + k))) :: 32 word)) [0..<n]"
  from sendDma_sent [OF n tk, of src] obtain s'
    where s1: "sendDma src (of_nat n) s = Inr (Some (), s')"
      and s2: "sent (line_of s) (new_events s s') = ?slots"
    by blast
  from readDma_captured [OF n tk2 len fl, of dst ?slots] obtain t'
    where r1: "readDma dst (of_nat n) t = Inr (Some (), t')"
      and r2: "\<forall>k<n. mem t' (dst + k) = ucast (drop_bit 8 (tim_ccr1 t ! k))"
      and r3: "loopback ?slots (rline_of t) (new_events t t') =
                 (\<forall>k<n. agrees ?slots k (tim_ccr1 t ! k))"
    by blast
  from lb have ag: "\<forall>k<n. agrees ?slots k (tim_ccr1 t ! k)"
    unfolding s1 r1 dma_final_def by (simp add: s2 r3)
  have "mem t' (dst + k) = mem s (src + k)" if k: "k < n" for k
  proof -
    from ag k have "agrees ?slots k (tim_ccr1 t ! k)" by blast
    with k have "drop_bit 8 (tim_ccr1 t ! k) =
        drop_bit 8 (ucast (push_bit 8 (ucast (mem s (src + k)) :: 32 word)) :: 16 word)"
      by (simp add: agrees_def slot_byte_def)
    from loopback_byte [OF this] r2 k show ?thesis by simp
  qed
  then have "map (mem t') [dst..<dst + n] = map (mem s) [src..<src + n]"
    by (intro nth_equalityI) simp_all
  then show ?thesis
    unfolding s1 r1 by (simp add: dma_returned_def dma_final_def)
qed

text \<open>
  C6. A byte sequence of length 0, 1, 15, 16, 17, 255 or 4096 is held in the writer's
  memory, the timers of both sides deliver a tick for each of its bytes, and the reader,
  its data pins floating, is connected to the writer by a loopback: the byte its sampler
  shows after a completed slot is the byte the writer drove on its data pins in the slot
  of the same number. Then \<open>sendDma\<close> returns, and \<open>readDma\<close> returns with exactly that
  sequence, in order, in its buffer.
\<close>

theorem dma_roundtrip:
  assumes "length bs \<in> {0, 1, 15, 16, 17, 255, 4096}"
    and "map (mem s) [src..<src + length bs] = bs"
    and "ticks (length bs) (tim_cnt s)"
    and "ticks (length bs) (tim_cnt t)"
    and "length bs \<le> length (tim_ccr1 t)"
    and "data_bus_released t"
    and "loopback
           (sent (line_of s) (new_events s (dma_final s (sendDma src (of_nat (length bs)) s))))
           (rline_of t) (new_events t (dma_final t (readDma dst (of_nat (length bs)) t)))"
  shows "dma_returned (sendDma src (of_nat (length bs)) s) \<and>
         dma_returned (readDma dst (of_nat (length bs)) t) \<and>
         map (mem (dma_final t (readDma dst (of_nat (length bs)) t))) [dst..<dst + length bs] = bs"
proof -
  from assms(1) have "length bs < 2 ^ 31" by auto
  from roundtrip_any_length [OF this assms(3) assms(4) assms(5) assms(6) assms(7)] assms(2)
  show ?thesis by simp
qed


lemma sender_sent:
  "sent (line_of sender_hw) (new_events sender_hw (dma_final sender_hw (sendDma 0 17 sender_hw))) =
     map Some [0x0100, 0x0200, 0x0300, 0x0400, 0x0500, 0x0600, 0x0700, 0x0800, 0x0900, 0x0A00,
       0x0B00, 0x0C00, 0x0D00, 0x0E00, 0x0F00, 0x1000, 0x1100]"
  by (simp add: sender_hw_def run_defs new_events_def word_sle_eq word_sless_alt dma_final_def
      sent_def line_of_def drq_driven_def data_pins_def pin_cfg_def)

theorem dma_roundtrip_witness:
  "length [1, 2, 3, 4, 5, 6, 7, 8, 9, 10, 11, 12, 13, 14, 15, 16, 17 :: 8 word]
     \<in> {0, 1, 15, 16, 17, 255, 4096} \<and>
   data_bus_released reader_hw \<and>
   loopback
     (sent (line_of sender_hw) (new_events sender_hw (dma_final sender_hw (sendDma 0 17 sender_hw))))
     (rline_of reader_hw) (new_events reader_hw (dma_final reader_hw (readDma 100 17 reader_hw))) \<and>
   dma_returned (sendDma 0 17 sender_hw) \<and>
   dma_returned (readDma 100 17 reader_hw) \<and>
   map (mem (dma_final reader_hw (readDma 100 17 reader_hw))) [100..<100 + 17] =
     [1, 2, 3, 4, 5, 6, 7, 8, 9, 10, 11, 12, 13, 14, 15, 16, 17]"
proof -
  let ?bs = "[1, 2, 3, 4, 5, 6, 7, 8, 9, 10, 11, 12, 13, 14, 15, 16, 17 :: 8 word]"
  have len: "length ?bs = 17" by simp
  have h1: "length ?bs \<in> {0, 1, 15, 16, 17, 255, 4096}" by simp
  have h2: "map (mem sender_hw) [0..<0 + length ?bs] = ?bs"
    by (simp add: sender_hw_def hw_init_def upt_rec)
  have h3: "ticks (length ?bs) (tim_cnt sender_hw)"
    by (simp add: sender_hw_def hw_init_def)
  have h4: "ticks (length ?bs) (tim_cnt reader_hw)"
    by (simp add: reader_hw_def hw_init_def)
  have h5: "length ?bs \<le> length (tim_ccr1 reader_hw)"
    by (simp add: reader_hw_def hw_init_def)
  have h6: "data_bus_released reader_hw"
    by (simp add: reader_hw_def hw_init_def data_bus_released_def pin_cfg_def)
  have h7: "loopback
      (sent (line_of sender_hw)
         (new_events sender_hw (dma_final sender_hw (sendDma 0 (of_nat (length ?bs)) sender_hw))))
      (rline_of reader_hw)
      (new_events reader_hw (dma_final reader_hw (readDma 100 (of_nat (length ?bs)) reader_hw)))"
    unfolding len of_nat_numeral sender_sent
    by (simp add: reader_hw_def run_defs new_events_def word_sle_eq word_sless_alt dma_final_def
        loopback_def rline_of_def drq_driven_def data_pins_def pin_cfg_def agrees_def
        slot_byte_def)
  from dma_roundtrip [OF h1 h2 h3 h4 h5 h6 h7] h1 h6 h7 show ?thesis
    unfolding len of_nat_numeral by simp
qed

subsection \<open>Counts that are not positive\<close>

text \<open>
  Below \<open>- 2 ^ 31 + 16\<close> the subtraction in the guard of the batch loop overflows, and the
  behaviour of both block transfers is undefined.
\<close>

lemma dma_count_overflow:
  assumes "sint count < - (2 ^ 31) + 16"
  shows "readDma bytes count s = Inl SignedOverflow"
    and "sendDma bytes count s = Inl SignedOverflow"
  using assms by (simp_all add: readDma_def sendDma_def dma_loop16.simps)

text \<open>
  C10. For every count from \<open>- 2 ^ 31 + 16\<close> to 0, whatever the buffer: \<open>readDma\<close> and
  \<open>sendDma\<close> return, having done no more than switch systick off, acquire the lines,
  release the bus and switch systick on again. The counter is set once, to 2, by
  \<open>acquireDrq\<close>, and is neither reset for a byte nor read; the byte sampler is not read,
  ODR is not written, and the memory is left as it was.
\<close>

theorem dma_nonpositive_count_no_transfer:
  assumes "- (2 ^ 31) + 16 \<le> sint count" and "sint count \<le> 0"
  shows "readDma bytes count s =
           Inr (Some (), systick_enable (releaseBus (acquireDrq (systick_disable s)))) \<and>
         sendDma bytes count s =
           Inr (Some (), systick_enable (releaseBus (acquireDrq (acquireDataBus (systick_disable s))))) \<and>
         mem (dma_final s (readDma bytes count s)) = mem s \<and>
         mem (dma_final s (sendDma bytes count s)) = mem s \<and>
         new_events s (dma_final s (readDma bytes count s)) =
           [SystickDisable, WrCnt 2, WrGpioaCrh 0x44448BB4, WrGpioaCrh 0x4444BBB4,
            WrGpiobCrh 0x44444444, WrGpioaCrh 0x44444BB4, SystickEnable] \<and>
         new_events s (dma_final s (sendDma bytes count s)) =
           [SystickDisable, WrGpiobCrh 0x33333333, WrCnt 2, WrGpioaCrh 0x44448BB4,
            WrGpioaCrh 0x4444BBB4, WrGpiobCrh 0x44444444, WrGpioaCrh 0x44444BB4, SystickEnable]"
proof -
  from assms have n: "nat (sint count) = 0" by simp
  have r: "readDma bytes count s =
      Inr (Some (), systick_enable (releaseBus (acquireDrq (systick_disable s))))"
    by (simp add: readDma_bytewise [OF assms(1)] readBlock_bytewise_def n)
  have w: "sendDma bytes count s =
      Inr (Some (), systick_enable (releaseBus (acquireDrq (acquireDataBus (systick_disable s)))))"
    by (simp add: sendDma_bytewise [OF assms(1)] writeBlock_bytewise_def n)
  show ?thesis
    unfolding r w dma_final_def
    by (simp add: new_events_def systick_enable_def systick_disable_def releaseBus_def
        releaseRq_def releaseDataBus_def acquireDrq_def acquireDataBus_def wr_cnt_def emit_def
        Let_def)
qed

theorem dma_nonpositive_count_no_transfer_witness:
  "- (2 ^ 31) + 16 \<le> sint (- 3 :: 32 word) \<and> sint (- 3 :: 32 word) \<le> 0 \<and>
   dma_returned (readDma 7 (- 3) test_hw) \<and>
   dma_returned (sendDma 7 (- 3) test_hw) \<and>
   mem (dma_final test_hw (readDma 7 (- 3) test_hw)) = mem test_hw \<and>
   tim_cnt (dma_final test_hw (readDma 7 (- 3) test_hw)) = [1] \<and>
   tim_cnt (dma_final test_hw (sendDma 7 (- 3) test_hw)) = [1] \<and>
   new_events test_hw (dma_final test_hw (readDma 7 (- 3) test_hw)) =
     [SystickDisable, WrCnt 2, WrGpioaCrh 0x44448BB4, WrGpioaCrh 0x4444BBB4,
      WrGpiobCrh 0x44444444, WrGpioaCrh 0x44444BB4, SystickEnable] \<and>
   new_events test_hw (dma_final test_hw (sendDma 7 (- 3) test_hw)) =
     [SystickDisable, WrGpiobCrh 0x33333333, WrCnt 2, WrGpioaCrh 0x44448BB4,
      WrGpioaCrh 0x4444BBB4, WrGpiobCrh 0x44444444, WrGpioaCrh 0x44444BB4, SystickEnable]"
proof -
  have h1: "- (2 ^ 31) + 16 \<le> sint (- 3 :: 32 word)" by simp
  have h2: "sint (- 3 :: 32 word) \<le> 0" by simp
  from dma_nonpositive_count_no_transfer [OF h1 h2, of 7 test_hw] h1 h2 show ?thesis
    by (simp add: dma_returned_def dma_final_def test_hw_def run_defs word_sle_eq word_sless_alt)
qed

subsection \<open>A double acknowledge during a block transfer\<close>

text \<open>
  C3. The timer counter reads 2 after the reset for the first byte: two acknowledge
  edges have arrived in one byte slot. \<open>readDma\<close> and \<open>sendDma\<close> take any non-zero counter
  for the tick: they transfer both bytes of the block and return as after a clean
  transfer.
\<close>

theorem dma_double_ack_not_detected:
  "dma_returned (readDma 0 2 (hw_init [] [] [2, 1] [0x1100, 0x2200] (\<lambda>_. 0))) \<and>
   mem (dma_final (hw_init [] [] [2, 1] [0x1100, 0x2200] (\<lambda>_. 0))
     (readDma 0 2 (hw_init [] [] [2, 1] [0x1100, 0x2200] (\<lambda>_. 0)))) 0 = 0x11 \<and>
   mem (dma_final (hw_init [] [] [2, 1] [0x1100, 0x2200] (\<lambda>_. 0))
     (readDma 0 2 (hw_init [] [] [2, 1] [0x1100, 0x2200] (\<lambda>_. 0)))) 1 = 0x22 \<and>
   dma_returned (sendDma 0 2 (hw_init [] [] [2, 1] [] (\<lambda>_. 0x5A))) \<and>
   odr_writes (new_events (hw_init [] [] [2, 1] [] (\<lambda>_. 0x5A))
     (dma_final (hw_init [] [] [2, 1] [] (\<lambda>_. 0x5A))
        (sendDma 0 2 (hw_init [] [] [2, 1] [] (\<lambda>_. 0x5A))))) = [0x5A00, 0x5A00]"
  by (simp add: run_defs new_events_def word_sle_eq word_sless_alt dma_returned_def dma_final_def)

end
